theory Spec2Isabelle
  imports Complex_Main "HOL-Library.Sublist"
begin

section \<open>Strings, key groups and the dictionary\<close>

text \<open>
  A JavaScript string is a sequence of UTF-16 code units; \<open>s.length\<close> counts them and
  \<open>s[i]\<close> reads one. A string is therefore a list of code units (natural numbers), so
  that a Hanzi of the basic plane is one element, as in the program. \<open>ascii\<close> writes
  the ASCII literals of the source.
\<close>

type_synonym jsstring = "nat list"

definition ascii :: "string \<Rightarrow> jsstring" where
  "ascii s = map of_char s"

text \<open>
  \<open>String.prototype.toLowerCase\<close> is a function of the host and is a parameter named
  \<open>toLowerCase\<close> of everything that calls it: a function from strings to strings, of
  which nothing is assumed. \<open>ascii_toLowerCase\<close> is what it computes on a string of ASCII
  characters, for the concrete evaluations further down, whose strings are all ASCII.
\<close>

definition ascii_toLowerCase :: "jsstring \<Rightarrow> jsstring" where
  "ascii_toLowerCase s = map (\<lambda>c. if 65 \<le> c \<and> c \<le> 90 then c + 32 else c) s"

text \<open>
  \<open>types.ts\<close>: a key group. The optional fields \<open>chars\<close> and \<open>action\<close> are options;
  \<open>subLabel\<close> and \<open>width\<close> only steer the rendering and are left out.
\<close>

datatype KeyType = CharGroup | Action | Placeholder

record KeyGroup =
  label :: jsstring
  chars :: "jsstring list option"
  action :: "string option"
  "type" :: KeyType

record Segment =
  str :: jsstring
  len :: nat

section \<open>The key-group matcher\<close>

text \<open>
  \<open>matchesGroups\<close> (lines 37-47). The loop runs over the index \<open>i\<close>; \<open>groups[i]\<close> is in
  range because the lengths were compared first. \<open>!allowed\<close> holds exactly for a
  missing \<open>chars\<close> (an empty array is truthy), and \<open>includes\<close> compares whole strings.
\<close>

function matchesGroups_loop :: "(jsstring \<Rightarrow> jsstring) \<Rightarrow> jsstring \<Rightarrow> KeyGroup list \<Rightarrow> nat \<Rightarrow> bool" where
  "matchesGroups_loop toLowerCase target groups i =
     (if i < length target then
        (let char = toLowerCase [target ! i];
             allowed = chars (groups ! i)
         in case allowed of
              None \<Rightarrow> False
            | Some a \<Rightarrow> if char \<notin> set a then False
                        else matchesGroups_loop toLowerCase target groups (i + 1))
      else True)"
  by pat_completeness auto
termination
  by (relation "measure (\<lambda>(lower, target, groups, i). length target - i)") auto

declare matchesGroups_loop.simps [simp del]

definition matchesGroups :: "(jsstring \<Rightarrow> jsstring) \<Rightarrow> jsstring \<Rightarrow> KeyGroup list \<Rightarrow> bool" where
  "matchesGroups toLowerCase target groups =
     (if length target \<noteq> length groups then False
      else matchesGroups_loop toLowerCase target groups 0)"

text \<open>
  The matcher as the specification words it, for comparison only: the letters of the
  group are case-folded as well before the membership test.
\<close>

definition matches_folding_groups :: "(jsstring \<Rightarrow> jsstring) \<Rightarrow> jsstring \<Rightarrow> KeyGroup list \<Rightarrow> bool" where
  "matches_folding_groups toLowerCase target groups =
     (length target = length groups \<and>
      (\<forall>i < length target.
         case chars (groups ! i) of
           None \<Rightarrow> False
         | Some a \<Rightarrow> toLowerCase [target ! i] \<in> set (map toLowerCase a)))"

section \<open>Arrays\<close>

text \<open>
  \<open>Array.prototype.slice(start, end)\<close> (and the same method of strings) with integer
  arguments: a negative index counts from the end, every index is clamped to the length,
  and \<open>-0\<close> is \<open>0\<close>. \<open>slice_from\<close> is the call without \<open>end\<close>.
\<close>

definition relative_index :: "nat \<Rightarrow> int \<Rightarrow> nat" where
  "relative_index n a = (if a < 0 then nat (max (int n + a) 0) else min (nat a) n)"

definition slice :: "'a list \<Rightarrow> int \<Rightarrow> int \<Rightarrow> 'a list" where
  "slice xs a b =
     (let from = relative_index (length xs) a;
          to = relative_index (length xs) b
      in take (to - from) (drop from xs))"

definition slice_from :: "'a list \<Rightarrow> int \<Rightarrow> 'a list" where
  "slice_from xs a = drop (relative_index (length xs) a) xs"

text \<open>
  \<open>Array.prototype.sort(cmp)\<close> is stable, and for a consistent comparator its result is
  the one of any stable sort. It is modelled as insertion sort: an element goes in front
  of the first later element that it does not have to follow (\<open>cmp x y \<le> 0\<close>).
\<close>

fun insert_sorted :: "('a \<Rightarrow> 'a \<Rightarrow> 'b::{linorder,zero}) \<Rightarrow> 'a \<Rightarrow> 'a list \<Rightarrow> 'a list" where
  "insert_sorted cmp x [] = [x]"
| "insert_sorted cmp x (y # ys) =
     (if cmp x y \<le> 0 then x # y # ys else y # insert_sorted cmp x ys)"

definition Array_sort :: "('a \<Rightarrow> 'a \<Rightarrow> 'b::{linorder,zero}) \<Rightarrow> 'a list \<Rightarrow> 'a list" where
  "Array_sort cmp xs = foldr (insert_sorted cmp) xs []"

text \<open>\<open>String(n)\<close> for a natural number, as the template literal of \<open>addResult\<close> renders it.\<close>

function toString :: "nat \<Rightarrow> jsstring" where
  "toString n = (if n < 10 then [48 + n] else toString (n div 10) @ [48 + n mod 10])"
  by pat_completeness auto
termination
  by (relation "measure id") auto

declare toString.simps [simp del]

section \<open>The dictionary\<close>

text \<open>
  The module \<open>../constants\<close> is not among the sources. Its three tables are parameters
  of everything below: \<open>VALID_PINYINS\<close> (a \<open>Set\<close>, given by \<open>Array.from\<close> as the list of
  its elements in insertion order), and the two records \<open>PINYIN_TO_HANZI\<close> and
  \<open>COMMON_PHRASES\<close> from a string to an array of strings.
\<close>

record Constants =
  VALID_PINYINS :: "jsstring list"
  PINYIN_TO_HANZI :: "jsstring \<rightharpoonup> jsstring list"
  COMMON_PHRASES :: "jsstring \<rightharpoonup> jsstring list"

section \<open>Segmentation\<close>

text \<open>
  \<open>availablePinyinSegments\<close> (lines 101-121). \<open>localeCompare\<close> is the host's collation
  and is a parameter. The comparator is \<open>a.len - b.len || a.str.localeCompare(b.str)\<close>.
\<close>

definition availablePinyinSegments ::
  "(jsstring \<Rightarrow> jsstring \<Rightarrow> int) \<Rightarrow> (jsstring \<Rightarrow> jsstring) \<Rightarrow> Constants \<Rightarrow> KeyGroup list \<Rightarrow> Segment list" where
  "availablePinyinSegments localeCompare toLowerCase c pinyinKeys =
     (if length pinyinKeys = 0 then []
      else
        let validPinyinsArray = VALID_PINYINS c;
            maxLen = min 6 (length pinyinKeys);
            results =
              fold (\<lambda>n results.
                      let chunkSlice = slice pinyinKeys 0 (int n);
                          matches = filter (\<lambda>p. length p = n \<and> matchesGroups toLowerCase p chunkSlice)
                                      validPinyinsArray
                      in fold (\<lambda>m results. results @ [\<lparr>str = m, len = n\<rparr>]) matches results)
                   [1 ..< maxLen + 1] []
        in Array_sort
             (\<lambda>a b. if int (len a) - int (len b) \<noteq> 0 then int (len a) - int (len b)
                    else localeCompare (str a) (str b))
             results)"

text \<open>
  \<open>solve\<close> (lines 133-155), with the memo table passed through every call and returned.
  The two loops are folds over the chunk lengths and over the matching syllables; each
  carries the results collected so far and the table.
\<close>

type_synonym memo = "nat \<rightharpoonup> Segment list list"

function solve ::
  "(jsstring \<Rightarrow> jsstring) \<Rightarrow> jsstring list \<Rightarrow> KeyGroup list \<Rightarrow> nat \<Rightarrow> memo \<Rightarrow> Segment list list \<times> memo" where
  "solve toLowerCase validPinyinsArray pinyinKeys index memo =
     (if index = length pinyinKeys then ([[]], memo)
      else case memo index of
        Some r \<Rightarrow> (r, memo)
      | None \<Rightarrow>
         (let remainingLen = length pinyinKeys - index;
              maxChunkLen = min 6 remainingLen;
              (results, memo1) =
                 fold (\<lambda>n (results, memo).
                         let chunkSlice = slice pinyinKeys (int index) (int (index + n));
                             matches = filter (\<lambda>p. length p = n \<and> matchesGroups toLowerCase p chunkSlice)
                                         validPinyinsArray
                         in fold (\<lambda>m (results, memo).
                                    let (suffixes, memo2) =
                                          solve toLowerCase validPinyinsArray pinyinKeys (index + n) memo
                                    in (results @
                                          map (\<lambda>suffix. \<lparr>str = m, len = n\<rparr> # suffix) suffixes,
                                        memo2))
                                 matches (results, memo))
                      [1 ..< maxChunkLen + 1] ([], memo)
          in (results, memo1(index \<mapsto> results))))"
  by pat_completeness auto
termination
  by (relation "measure (\<lambda>(lower, v, ks, i, m). length ks - i)") auto

declare solve.simps [simp del]

text \<open>\<open>segmentations\<close> (lines 127-158): the guard for the empty buffer, then \<open>solve(0)\<close>.\<close>

definition segmentations :: "(jsstring \<Rightarrow> jsstring) \<Rightarrow> Constants \<Rightarrow> KeyGroup list \<Rightarrow> Segment list list" where
  "segmentations toLowerCase c pinyinKeys =
     (if length pinyinKeys = 0 then []
      else fst (solve toLowerCase (VALID_PINYINS c) pinyinKeys 0 Map.empty))"

text \<open>
  The same enumeration without the table, used to reason about \<open>solve\<close>: what \<open>solve\<close>
  returns at an index whenever the table only holds earlier results of \<open>solve\<close>.
\<close>

function decompositions_from ::
  "(jsstring \<Rightarrow> jsstring) \<Rightarrow> jsstring list \<Rightarrow> KeyGroup list \<Rightarrow> nat \<Rightarrow> Segment list list" where
  "decompositions_from toLowerCase vp ks i =
     (if i = length ks then [[]]
      else concat (map (\<lambda>n.
             concat (map (\<lambda>m. map (\<lambda>suffix. \<lparr>str = m, len = n\<rparr> # suffix)
                                  (decompositions_from toLowerCase vp ks (i + n)))
                         (filter (\<lambda>p. length p = n \<and>
                                       matchesGroups toLowerCase p (slice ks (int i) (int (i + n)))) vp)))
           [1 ..< min 6 (length ks - i) + 1]))"
  by pat_completeness auto
termination
  by (relation "measure (\<lambda>(lower, v, ks, i). length ks - i)") auto

declare decompositions_from.simps [simp del]

definition memo_ok :: "(jsstring \<Rightarrow> jsstring) \<Rightarrow> jsstring list \<Rightarrow> KeyGroup list \<Rightarrow> memo \<Rightarrow> bool" where
  "memo_ok toLowerCase vp ks memo = (\<forall>i r. memo i = Some r \<longrightarrow> r = decompositions_from toLowerCase vp ks i)"

text \<open>
  A full-length decomposition, as the specification words it: the segment lengths sum to
  the length of the buffer, and every segment is a dictionary syllable of at most six
  letters that matches the slice of the buffer it consumes. \<open>offset d k\<close> is where the
  \<open>k\<close>-th segment starts. \<open>decomposition_from\<close> is the same for the buffer from \<open>i\<close> on.
\<close>

definition offset :: "Segment list \<Rightarrow> nat \<Rightarrow> nat" where
  "offset d k = sum_list (map len (take k d))"

definition decomposition_from ::
  "(jsstring \<Rightarrow> jsstring) \<Rightarrow> jsstring list \<Rightarrow> KeyGroup list \<Rightarrow> nat \<Rightarrow> Segment list \<Rightarrow> bool" where
  "decomposition_from toLowerCase vp ks i d =
     (i + sum_list (map len d) = length ks \<and>
      (\<forall>k < length d.
         str (d ! k) \<in> set vp \<and> length (str (d ! k)) \<le> 6 \<and>
         matchesGroups toLowerCase (str (d ! k))
           (slice ks (int (i + offset d k)) (int (i + offset d k + len (d ! k))))))"

definition is_decomposition ::
  "(jsstring \<Rightarrow> jsstring) \<Rightarrow> jsstring list \<Rightarrow> KeyGroup list \<Rightarrow> Segment list \<Rightarrow> bool" where
  "is_decomposition toLowerCase vp ks d =
     (sum_list (map len d) = length ks \<and>
      (\<forall>k < length d.
         str (d ! k) \<in> set vp \<and> length (str (d ! k)) \<le> 6 \<and>
         matchesGroups toLowerCase (str (d ! k))
           (slice ks (int (offset d k)) (int (offset d k + len (d ! k))))))"

section \<open>The candidate ranker\<close>

datatype CandidateType = TPhrase | TChar | TRaw

datatype CandidateMode = ModeWord | ModeChar

text \<open>
  A score is a JavaScript number, a binary64 float. The model computes scores as exact
  rationals: the penalties \<open>idx * 0.1\<close> and \<open>idx * 0.5\<close> are the fractions \<open>idx / 10\<close>
  and \<open>idx / 2\<close>, and no sum is rounded. The statements below about scores are
  statements about these exact values; the rounding of the floating-point arithmetic is
  not modelled.
\<close>

record Candidate =
  display :: jsstring
  "value" :: jsstring
  score :: rat
  consumedLen :: nat
  "type" :: CandidateType

text \<open>
  \<open>addResult\<close> (lines 169-190) on the pair of \<open>processed\<close> and \<open>resultList\<close>. The key is
  the string \<open>`${value}-${consumedLen}`\<close>; \<open>usageHistory[value] || 0\<close> reads a missing
  entry as \<open>0\<close>.

  The usage history is modelled as the table of the counts that \<open>handleCandidateSelect\<close>
  has recorded, that is, by the own properties of the object. In JavaScript the read
  \<open>usageHistory[value]\<close> also finds the properties that every object inherits (for the
  values \<open>constructor\<close>, \<open>toString\<close>, \<open>valueOf\<close>, \<open>hasOwnProperty\<close>, \<open>__proto__\<close> and
  the like), and then the frequency is not a number and the score is \<open>NaN\<close>. Candidate
  values of that kind are outside the model: what is proved about scores holds for the
  values that do not name an inherited property.
\<close>

definition addResult ::
  "CandidateMode \<Rightarrow> (jsstring \<rightharpoonup> nat) \<Rightarrow>
   jsstring \<Rightarrow> jsstring \<Rightarrow> rat \<Rightarrow> nat \<Rightarrow> CandidateType \<Rightarrow> rat \<Rightarrow>
   jsstring set \<times> Candidate list \<Rightarrow> jsstring set \<times> Candidate list" where
  "addResult candidateMode usageHistory display' value' baseScore consumedLen' type' indexPenalty st =
     (let processed = fst st; resultList = snd st;
          key = value' @ ascii ''-'' @ toString consumedLen'
      in if key \<notin> processed then
           (let score0 = baseScore;
                score1 = (if candidateMode = ModeChar \<and> type' = TChar then score0 + 200
                          else if candidateMode = ModeWord \<and> type' = TPhrase then score0 + 50
                          else score0);
                score2 = score1 + of_nat (length value') * 5;
                freq = (case usageHistory value' of Some n \<Rightarrow> n | None \<Rightarrow> 0);
                score3 = score2 + of_nat freq * 10;
                score4 = score3 - indexPenalty
            in (insert key processed,
                resultList @ [\<lparr>display = display', value = value', score = score4,
                                consumedLen = consumedLen', type = type'\<rparr>]))
         else (processed, resultList))"

text \<open>\<open>k.chars?.[0] || '?'\<close> (line 253): a missing array, an empty array and an empty
  first entry all give the question mark.\<close>

definition first_char_or :: "jsstring \<Rightarrow> KeyGroup \<Rightarrow> jsstring" where
  "first_char_or dflt k =
     (case chars k of
        None \<Rightarrow> dflt
      | Some [] \<Rightarrow> dflt
      | Some (x # xs) \<Rightarrow> if x = [] then dflt else x)"

text \<open>
  \<open>candidates\<close> (lines 163-261). \<open>forEach((x, idx) => ...)\<close> is a fold over the entries
  paired with their index. The loop over \<open>COMMON_PHRASES\<close> in the focused branch has an
  empty body and is left out.
\<close>

definition phrase_matching ::
  "Constants \<Rightarrow> CandidateMode \<Rightarrow> (jsstring \<rightharpoonup> nat) \<Rightarrow> Segment list \<Rightarrow>
   jsstring set \<times> Candidate list \<Rightarrow> jsstring set \<times> Candidate list" where
  "phrase_matching c candidateMode usageHistory segPath st =
     snd (snd (fold
       (\<lambda>i (accumulatedPinyin, accumulatedLen, st).
          let s = segPath ! i;
              accumulatedPinyin' = accumulatedPinyin @ (if i > 0 then [39] else []) @ str s;
              accumulatedLen' = accumulatedLen + len s
          in (accumulatedPinyin', accumulatedLen',
              (case COMMON_PHRASES c accumulatedPinyin' of
                 Some phrases \<Rightarrow>
                   fold (\<lambda>(idx, phrase).
                           addResult candidateMode usageHistory phrase phrase 150
                             accumulatedLen' TPhrase (of_nat idx * (1 / 10)))
                     (enumerate 0 phrases) st
               | None \<Rightarrow> st)))
       [0 ..< min (length segPath) 4] ([], 0, st)))"

definition first_segment_hanzi ::
  "Constants \<Rightarrow> CandidateMode \<Rightarrow> (jsstring \<rightharpoonup> nat) \<Rightarrow> Segment list \<Rightarrow>
   jsstring set \<times> Candidate list \<Rightarrow> jsstring set \<times> Candidate list" where
  "first_segment_hanzi c candidateMode usageHistory segPath st =
     (let firstSeg = segPath ! 0;
          pinyinStr = str firstSeg
      in case PINYIN_TO_HANZI c pinyinStr of
           Some hanzis \<Rightarrow>
             fold (\<lambda>(idx, h).
                     addResult candidateMode usageHistory h h 50 (len firstSeg) TChar
                       (of_nat idx * (1 / 2)))
               (enumerate 0 hanzis) st
         | None \<Rightarrow> st)"

definition candidates ::
  "Constants \<Rightarrow> KeyGroup list \<Rightarrow> Segment list list \<Rightarrow> (jsstring \<rightharpoonup> nat) \<Rightarrow>
   CandidateMode \<Rightarrow> Segment option \<Rightarrow> Candidate list" where
  "candidates c pinyinKeys segmentations' usageHistory candidateMode focusedPinyinCandidate =
     (if length pinyinKeys = 0 then []
      else
        let st0 = ({} :: jsstring set, [] :: Candidate list)
        in case focusedPinyinCandidate of
          Some f \<Rightarrow>
            (let st =
               (case PINYIN_TO_HANZI c (str f) of
                  Some hanzis \<Rightarrow>
                    fold (\<lambda>(idx, h).
                            addResult candidateMode usageHistory h h 100 (len f) TChar
                              (of_nat idx * (1 / 10)))
                      (enumerate 0 hanzis) st0
                | None \<Rightarrow> st0)
             in Array_sort (\<lambda>a b. score b - score a) (snd st))
        | None \<Rightarrow>
            (let st =
               (if length segmentations' > 0 then
                  fold (\<lambda>segPath st.
                          if length segPath = 0 then st
                          else first_segment_hanzi c candidateMode usageHistory segPath
                                 (phrase_matching c candidateMode usageHistory segPath st))
                    segmentations' st0
                else
                  (if length (snd st0) = 0 then
                     (let raw = concat (map (first_char_or (ascii ''?'')) pinyinKeys)
                      in addResult candidateMode usageHistory raw raw 0 (length pinyinKeys)
                           TRaw 0 st0)
                   else st0))
             in Array_sort (\<lambda>a b. score b - score a) (snd st)))"

section \<open>The composition state machine\<close>

record HistoryItem =
  "text" :: jsstring
  "keys" :: "KeyGroup list"

text \<open>
  The calls of the two callbacks \<open>onKeyPress\<close> and \<open>onDelete\<close> that the component gets from
  \<open>App\<close> are recorded in order; \<open>App\<close> appends the text to its input, or drops the input's
  last character.
\<close>

datatype SinkCall = KeyPress jsstring | Delete

fun App_input :: "jsstring \<Rightarrow> SinkCall list \<Rightarrow> jsstring" where
  "App_input input [] = input"
| "App_input input (KeyPress char # cs) = App_input (input @ char) cs"
| "App_input input (Delete # cs) = App_input (slice input 0 (- 1)) cs"

text \<open>
  The state of \<open>KeyboardLayout\<close> (lines 56-75). The magnifier (\<open>activeGroup\<close>,
  \<open>slideIndex\<close>) and the hand mode, which belongs to \<open>App\<close>, only concern the layout and
  are left out.
\<close>

record State =
  pinyinKeys :: "KeyGroup list"
  stagedText :: jsstring
  selectionHistory :: "HistoryItem list"
  isExpanded :: bool
  page :: nat
  candidateMode :: CandidateMode
  focusedPinyinCandidate :: "Segment option"
  usageHistory :: "jsstring \<rightharpoonup> nat"
  sink :: "SinkCall list"

definition initial :: State where
  "initial = \<lparr>pinyinKeys = [], stagedText = [], selectionHistory = [], isExpanded = False,
     page = 0, candidateMode = ModeWord, focusedPinyinCandidate = None,
     usageHistory = Map.empty, sink = []\<rparr>"

definition onKeyPress :: "jsstring \<Rightarrow> State \<Rightarrow> State" where
  "onKeyPress char st = st\<lparr>sink := sink st @ [KeyPress char]\<rparr>"

definition onDelete :: "State \<Rightarrow> State" where
  "onDelete st = st\<lparr>sink := sink st @ [Delete]\<rparr>"

text \<open>
  \<open>setPinyinKeys\<close> always stores a new array, so the effect of lines 81-86 runs after
  every call: the page and the focus are reset with it.
\<close>

definition setPinyinKeys :: "KeyGroup list \<Rightarrow> State \<Rightarrow> State" where
  "setPinyinKeys ks st = st\<lparr>pinyinKeys := ks, page := 0, focusedPinyinCandidate := None\<rparr>"

definition clearComposition :: "State \<Rightarrow> State" where
  "clearComposition st =
     (setPinyinKeys [] st)\<lparr>stagedText := [], selectionHistory := [], isExpanded := False,
        focusedPinyinCandidate := None, page := 0\<rparr>"

definition candidates_of :: "(jsstring \<Rightarrow> jsstring) \<Rightarrow> Constants \<Rightarrow> State \<Rightarrow> Candidate list" where
  "candidates_of toLowerCase c st =
     candidates c (pinyinKeys st) (segmentations toLowerCase c (pinyinKeys st)) (usageHistory st)
       (candidateMode st) (focusedPinyinCandidate st)"

text \<open>\<open>handleCandidateSelect\<close> (lines 275-303).\<close>

definition handleCandidateSelect :: "Candidate \<Rightarrow> State \<Rightarrow> State" where
  "handleCandidateSelect candidate st =
     (let st1 = st\<lparr>usageHistory := (usageHistory st)(value candidate \<mapsto>
                     (case usageHistory st (value candidate) of Some n \<Rightarrow> n | None \<Rightarrow> 0) + 1)\<rparr>;
          newStagedText = stagedText st @ value candidate;
          consumedKeys = slice (pinyinKeys st) 0 (int (consumedLen candidate));
          remainingKeys = slice_from (pinyinKeys st) (int (consumedLen candidate))
      in if length remainingKeys = 0 then
           clearComposition (onKeyPress newStagedText st1)
         else
           (setPinyinKeys remainingKeys
              (st1\<lparr>selectionHistory := selectionHistory st @
                                          [\<lparr>text = value candidate, keys = consumedKeys\<rparr>],
                    stagedText := newStagedText\<rparr>))
             \<lparr>page := 0, isExpanded := True, focusedPinyinCandidate := None\<rparr>)"

text \<open>\<open>handlePanelDelete\<close> (lines 342-364).\<close>

definition handlePanelDelete :: "State \<Rightarrow> State" where
  "handlePanelDelete st =
     (case focusedPinyinCandidate st of
        Some f \<Rightarrow> st\<lparr>focusedPinyinCandidate := None\<rparr>
      | None \<Rightarrow>
          if length (selectionHistory st) > 0 then
            (let last = selectionHistory st ! (length (selectionHistory st) - 1);
                 newHistory = slice (selectionHistory st) 0 (- 1)
             in (setPinyinKeys (keys last @ pinyinKeys st)
                   (st\<lparr>selectionHistory := newHistory,
                        stagedText := slice (stagedText st) 0 (- int (length (text last)))\<rparr>))
                  \<lparr>page := 0\<rparr>)
          else if length (pinyinKeys st) > 0 then
            setPinyinKeys (slice (pinyinKeys st) 0 (- 1)) st
          else if length (stagedText st) > 0 then
            st\<lparr>stagedText := slice (stagedText st) 0 (- 1)\<rparr>
          else onDelete st)"

text \<open>
  \<open>handleTap\<close> (lines 305-340). In the enter branch \<open>join\<close> renders a missing first
  letter as the empty string. \<open>setHandMode\<close> changes the layout only.
\<close>

definition handleTap :: "(jsstring \<Rightarrow> jsstring) \<Rightarrow> Constants \<Rightarrow> KeyGroup \<Rightarrow> State \<Rightarrow> State" where
  "handleTap toLowerCase c data st =
     (if KeyGroup.type data = Action then
        (if action data = Some ''backspace'' then handlePanelDelete st
         else if action data = Some ''space'' then
           (if length (pinyinKeys st) > 0 \<and> length (candidates_of toLowerCase c st) > 0 then
              handleCandidateSelect (candidates_of toLowerCase c st ! 0) st
            else if length (stagedText st) > 0 then
              (onKeyPress (stagedText st @ ascii '' '') st)\<lparr>stagedText := []\<rparr>
            else onKeyPress (ascii '' '') st)
         else if action data = Some ''enter'' then
           (if length (pinyinKeys st) > 0 \<or> length (stagedText st) > 0 then
              (let raw = toLowerCase
                           (concat (map (\<lambda>k. case chars k of None \<Rightarrow> []
                                                | Some [] \<Rightarrow> []
                                                | Some (x # xs) \<Rightarrow> x) (pinyinKeys st)))
               in clearComposition (onKeyPress (stagedText st @ raw) st))
            else onKeyPress [10] st)
         else st)
      else
        (case chars data of
           Some cs \<Rightarrow>
             if length cs = 1 then onKeyPress (cs ! 0) st
             else setPinyinKeys (pinyinKeys st @ [data]) st
         | None \<Rightarrow> st))"

text \<open>\<open>handleLongPressStart\<close> and \<open>handleSlideCommit\<close> (lines 366-390), without the
  magnifier and the vibration.\<close>

definition handleLongPressStart :: "KeyGroup \<Rightarrow> State \<Rightarrow> State" where
  "handleLongPressStart data st =
     (if action data = Some ''backspace'' then clearComposition st else st)"

definition handleSlideCommit :: "(jsstring \<Rightarrow> jsstring) \<Rightarrow> jsstring \<Rightarrow> State \<Rightarrow> State" where
  "handleSlideCommit toLowerCase char st =
     (let st1 =
        (if length (pinyinKeys st) > 0 \<or> length (stagedText st) > 0 then
           clearComposition
             (if length (stagedText st) > 0 then onKeyPress (stagedText st) st else st)
         else st)
      in onKeyPress (toLowerCase char) st1)"

text \<open>
  The events that reach the composition: a tap on a key, the choice of a candidate in the
  bar or the grid, the delete button of the panel, a long press, the end of a slide, a
  click on a syllable of the pinyin row (lines 466-475), the word/character toggle
  (line 537) and a click in the utility row (lines 671-674).
\<close>

datatype Event =
    Tap KeyGroup
  | CandidateSelect Candidate
  | PanelDelete
  | LongPressStart KeyGroup
  | SlideCommit jsstring
  | SegmentClick Segment
  | ModeToggle
  | UtilityClick "string option"

definition segmentClick :: "Segment \<Rightarrow> State \<Rightarrow> State" where
  "segmentClick seg st =
     (let isActive = (case focusedPinyinCandidate st of
                        Some f \<Rightarrow> str f = str seg \<and> len f = len seg
                      | None \<Rightarrow> False)
      in (if isActive then st\<lparr>focusedPinyinCandidate := None\<rparr>
          else st\<lparr>focusedPinyinCandidate := Some seg\<rparr>)\<lparr>page := 0\<rparr>)"

fun step :: "(jsstring \<Rightarrow> jsstring) \<Rightarrow> Constants \<Rightarrow> State \<Rightarrow> Event \<Rightarrow> State" where
  "step toLowerCase c st (Tap data) = handleTap toLowerCase c data st"
| "step toLowerCase c st (CandidateSelect candidate) = handleCandidateSelect candidate st"
| "step toLowerCase c st PanelDelete = handlePanelDelete st"
| "step toLowerCase c st (LongPressStart data) = handleLongPressStart data st"
| "step toLowerCase c st (SlideCommit char) = handleSlideCommit toLowerCase char st"
| "step toLowerCase c st (SegmentClick seg) = segmentClick seg st"
| "step toLowerCase c st ModeToggle =
     st\<lparr>candidateMode := (if candidateMode st = ModeWord then ModeChar else ModeWord)\<rparr>"
| "step toLowerCase c st (UtilityClick a) =
     (if a = Some ''close'' then clearComposition st else st)"

definition run :: "(jsstring \<Rightarrow> jsstring) \<Rightarrow> Constants \<Rightarrow> Event list \<Rightarrow> State" where
  "run toLowerCase c events = foldl (step toLowerCase c) initial events"

section \<open>Example data\<close>

text \<open>
  A six-key layout and a small dictionary for the concrete evaluations below. The Hanzi
  are given by their code units: 0x666E, 0x94FA, 0x745E and 0x76AE are the characters
  read pu, pu, rui and pi.
\<close>

definition letter_key :: "string \<Rightarrow> KeyGroup" where
  "letter_key s =
     \<lparr>label = ascii s, chars = Some (map (\<lambda>x. [of_char x]) s), action = None,
      type = CharGroup\<rparr>"

definition action_key :: "string \<Rightarrow> KeyGroup" where
  "action_key a = \<lparr>label = ascii a, chars = None, action = Some a, type = Action\<rparr>"

definition demo_constants :: Constants where
  "demo_constants =
     \<lparr>VALID_PINYINS = [ascii ''pu'', ascii ''rui'', ascii ''pi''],
      PINYIN_TO_HANZI = map_of [(ascii ''pu'', [[0x666E], [0x94FA]]),
                                (ascii ''rui'', [[0x745E]]),
                                (ascii ''pi'', [[0x76AE]])],
      COMMON_PHRASES = map_of [(ascii ''pu'rui'', [[0x666E, 0x745E]])]\<rparr>"

definition purui_keys :: "KeyGroup list" where
  "purui_keys = [letter_key ''yuiop'', letter_key ''yuiop'', letter_key ''qwert'',
                 letter_key ''yuiop'', letter_key ''yuiop'']"

text \<open>A collation by code units, to evaluate \<open>availablePinyinSegments\<close> with, and a
  dictionary whose syllables match prefixes of different lengths.\<close>

fun compare_units :: "jsstring \<Rightarrow> jsstring \<Rightarrow> int" where
  "compare_units [] [] = 0"
| "compare_units [] (y # ys) = - 1"
| "compare_units (x # xs) [] = 1"
| "compare_units (x # xs) (y # ys) =
     (if x < y then - 1 else if y < x then 1 else compare_units xs ys)"

definition prefix_constants :: Constants where
  "prefix_constants =
     \<lparr>VALID_PINYINS = [ascii ''yue'', ascii ''pu'', ascii ''pi'', ascii ''yu''],
      PINYIN_TO_HANZI = Map.empty, COMMON_PHRASES = Map.empty\<rparr>"

section \<open>The calls of \<open>addResult\<close>, for the statements about the ranker\<close>

text \<open>
  The arguments of one call of \<open>addResult\<close>: display, value, base score, consumed length,
  kind and index penalty. \<open>scored\<close> is the candidate that such a call stands for: the base
  score, the bonus of the mode, five points per code unit of the value, ten per recorded
  use, less the penalty. \<open>request_pair\<close> is the pair that \<open>processed\<close> remembers.
\<close>

type_synonym request = "jsstring \<times> jsstring \<times> rat \<times> nat \<times> CandidateType \<times> rat"

definition request_pair :: "request \<Rightarrow> jsstring \<times> nat" where
  "request_pair = (\<lambda>(d, v, b, n, t, p). (v, n))"

definition request_key :: "request \<Rightarrow> jsstring" where
  "request_key = (\<lambda>(d, v, b, n, t, p). v @ ascii ''-'' @ toString n)"

definition apply_request ::
  "CandidateMode \<Rightarrow> (jsstring \<rightharpoonup> nat) \<Rightarrow> request \<Rightarrow>
   jsstring set \<times> Candidate list \<Rightarrow> jsstring set \<times> Candidate list" where
  "apply_request mode usage = (\<lambda>(d, v, b, n, t, p). addResult mode usage d v b n t p)"

definition scored :: "CandidateMode \<Rightarrow> (jsstring \<rightharpoonup> nat) \<Rightarrow> request \<Rightarrow> Candidate" where
  "scored mode usage =
     (\<lambda>(d, v, b, n, t, p).
        \<lparr>display = d, value = v,
         score = b + (if mode = ModeChar \<and> t = TChar then 200
                      else if mode = ModeWord \<and> t = TPhrase then 50 else 0)
                   + of_nat (length v) * 5
                   + of_nat (case usage v of Some k \<Rightarrow> k | None \<Rightarrow> 0) * 10
                   - p,
         consumedLen = n, type = t\<rparr>)"

text \<open>The elements that are the first of the list with their key, in the order of the list.\<close>

function first_occurrences :: "('a \<Rightarrow> 'k) \<Rightarrow> 'a list \<Rightarrow> 'a list" where
  "first_occurrences f [] = []"
| "first_occurrences f (x # xs) = x # first_occurrences f (filter (\<lambda>y. f y \<noteq> f x) xs)"
  by pat_completeness auto
termination
  by (relation "measure (\<lambda>(f, xs). length xs)") (auto simp: less_Suc_eq_le)

text \<open>
  The calls that \<open>candidates\<close> makes, in order. \<open>join_pinyin\<close> is the key accumulated over
  the first segments of a path: the syllables with an apostrophe in front of every one
  but the first.
\<close>

definition join_pinyin :: "Segment list \<Rightarrow> jsstring" where
  "join_pinyin segs =
     concat (map (\<lambda>(i, s). (if i > 0 then [39] else []) @ str s) (enumerate 0 segs))"

definition hanzi_requests :: "rat \<Rightarrow> nat \<Rightarrow> rat \<Rightarrow> jsstring list \<Rightarrow> request list" where
  "hanzi_requests base n penalty hanzis =
     map (\<lambda>(idx, h). (h, h, base, n, TChar, of_nat idx * penalty)) (enumerate 0 hanzis)"

definition phrase_requests_at :: "Constants \<Rightarrow> Segment list \<Rightarrow> nat \<Rightarrow> request list" where
  "phrase_requests_at c segPath i =
     (case COMMON_PHRASES c (join_pinyin (take (Suc i) segPath)) of
        Some phrases \<Rightarrow>
          map (\<lambda>(idx, phrase). (phrase, phrase, 150, sum_list (map len (take (Suc i) segPath)),
                                 TPhrase, of_nat idx * (1 / 10)))
            (enumerate 0 phrases)
      | None \<Rightarrow> [])"

definition phrase_requests :: "Constants \<Rightarrow> Segment list \<Rightarrow> request list" where
  "phrase_requests c segPath =
     concat (map (phrase_requests_at c segPath) [0 ..< min (length segPath) 4])"

definition path_requests :: "Constants \<Rightarrow> Segment list \<Rightarrow> request list" where
  "path_requests c segPath =
     (if length segPath = 0 then []
      else phrase_requests c segPath @
           (case PINYIN_TO_HANZI c (str (segPath ! 0)) of
              Some hanzis \<Rightarrow> hanzi_requests 50 (len (segPath ! 0)) (1 / 2) hanzis
            | None \<Rightarrow> []))"

definition requests ::
  "Constants \<Rightarrow> KeyGroup list \<Rightarrow> Segment list list \<Rightarrow> Segment option \<Rightarrow> request list" where
  "requests c ks segs focus =
     (if length ks = 0 then []
      else case focus of
        Some f \<Rightarrow>
          (case PINYIN_TO_HANZI c (str f) of
             Some hanzis \<Rightarrow> hanzi_requests 100 (len f) (1 / 10) hanzis
           | None \<Rightarrow> [])
      | None \<Rightarrow>
          if length segs > 0 then concat (map (path_requests c) segs)
          else [(concat (map (first_char_or (ascii ''?'')) ks),
                 concat (map (first_char_or (ascii ''?'')) ks), 0, length ks, TRaw, 0)])"

text \<open>A dictionary that lists the empty string as a syllable, and the two keys of pu.\<close>

definition empty_syllable_constants :: Constants where
  "empty_syllable_constants =
     \<lparr>VALID_PINYINS = [[], ascii ''pu''], PINYIN_TO_HANZI = Map.empty,
      COMMON_PHRASES = Map.empty\<rparr>"

definition pu_keys :: "KeyGroup list" where
  "pu_keys = [letter_key ''yuiop'', letter_key ''yuiop'']"

text \<open>Two keys that spell no syllable of the small dictionary.\<close>

definition raw_keys :: "KeyGroup list" where
  "raw_keys = [letter_key ''asdfg'', letter_key ''zxcvb'']"

text \<open>A buffer whose first key group has an empty \<open>chars\<close> array: a tap appends it, since
  its array does not hold exactly one letter.\<close>

definition blank_keys :: "KeyGroup list" where
  "blank_keys = [\<lparr>label = [], chars = Some [], action = None, type = CharGroup\<rparr>,
                 letter_key ''asdfg'']"


definition composing_purui :: State where
  "composing_purui = initial\<lparr>pinyinKeys := purui_keys\<rparr>"

section \<open>The invariant of the composition\<close>

text \<open>
  The invariant behind the relation of staged text and pending keys: the staged text is
  the concatenation of the texts of the last entries of the selection history, and a
  non-empty history goes with a non-empty buffer.
\<close>

definition composition_invariant :: "State \<Rightarrow> bool" where
  "composition_invariant st =
     ((\<exists>hs. suffix hs (selectionHistory st) \<and> stagedText st = concat (map text hs)) \<and>
      (selectionHistory st \<noteq> [] \<longrightarrow> pinyinKeys st \<noteq> []))"

section \<open>Selections and their withdrawal\<close>

text \<open>
  A sequence of selections none of which commits: each is made in the state that the
  selections before it have left, and leaves keys in the buffer.
\<close>

fun selections_keep :: "State \<Rightarrow> Candidate list \<Rightarrow> bool" where
  "selections_keep st [] = True"
| "selections_keep st (candidate # cs) =
     (slice_from (pinyinKeys st) (int (consumedLen candidate)) \<noteq> [] \<and>
      selections_keep (handleCandidateSelect candidate st) cs)"





section \<open>Properties of the matcher\<close>

lemma matchesGroups_loop_iff:
  "matchesGroups_loop toLowerCase target groups i =
     (\<forall>j. i \<le> j \<and> j < length target \<longrightarrow>
        (\<exists>a. chars (groups ! j) = Some a \<and> toLowerCase [target ! j] \<in> set a))"
proof (induction toLowerCase target groups i rule: matchesGroups_loop.induct)
  case (1 toLowerCase target groups i)
  show ?case
  proof (cases "i < length target")
    case False
    then show ?thesis by (subst matchesGroups_loop.simps) auto
  next
    case True
    show ?thesis
    proof (cases "chars (groups ! i)")
      case None
      with True show ?thesis
        by (subst matchesGroups_loop.simps) auto
    next
      case (Some a)
      show ?thesis
      proof (cases "toLowerCase [target ! i] \<in> set a")
        case False
        with True Some show ?thesis
          by (subst matchesGroups_loop.simps) auto
      next
        case in_a: True
        have step: "matchesGroups_loop toLowerCase target groups i = matchesGroups_loop toLowerCase target groups (i + 1)"
          using True Some in_a by (subst matchesGroups_loop.simps) simp
        have ih: "matchesGroups_loop toLowerCase target groups (i + 1) =
            (\<forall>j. i + 1 \<le> j \<and> j < length target \<longrightarrow>
               (\<exists>a. chars (groups ! j) = Some a \<and> toLowerCase [target ! j] \<in> set a))"
          using "1.IH" [OF True refl refl Some] in_a by simp
        have "(\<forall>j. i \<le> j \<and> j < length target \<longrightarrow>
                 (\<exists>a. chars (groups ! j) = Some a \<and> toLowerCase [target ! j] \<in> set a)) =
              (\<forall>j. i + 1 \<le> j \<and> j < length target \<longrightarrow>
                 (\<exists>a. chars (groups ! j) = Some a \<and> toLowerCase [target ! j] \<in> set a))"
          (is "?L = ?R")
        proof
          assume ?L then show ?R by simp
        next
          assume r: ?R
          show ?L
          proof (intro allI impI)
            fix j assume j: "i \<le> j \<and> j < length target"
            show "\<exists>a. chars (groups ! j) = Some a \<and> toLowerCase [target ! j] \<in> set a"
            proof (cases "j = i")
              case True
              with Some in_a show ?thesis by simp
            next
              case False
              with j have "i + 1 \<le> j \<and> j < length target" by simp
              with r show ?thesis by blast
            qed
          qed
        qed
        with step ih show ?thesis by simp
      qed
    qed
  qed
qed

text \<open>
  C3 (as amended). \<open>matchesGroups\<close> is false whenever the syllable's length differs from
  the number of groups; otherwise it is true exactly when at every position \<open>i\<close> the
  group has a \<open>chars\<close> array and the lower-cased \<open>i\<close>-th letter of the syllable is one
  of its entries as they are listed. The letters of the group are not case-folded. The
  result is a function of the two arguments alone.
\<close>

theorem matchesGroups_characterisation:
  "matchesGroups toLowerCase target groups =
     (length target = length groups \<and>
      (\<forall>i < length target.
         \<exists>a. chars (groups ! i) = Some a \<and> toLowerCase [target ! i] \<in> set a))"
  by (simp add: matchesGroups_def matchesGroups_loop_iff)

theorem matchesGroups_characterisation_witness:
  "matchesGroups ascii_toLowerCase (ascii ''Pu'')
     [\<lparr>label = ascii ''OP'', chars = Some [ascii ''o'', ascii ''p''], action = None,
        type = CharGroup\<rparr>,
      \<lparr>label = ascii ''UI'', chars = Some [ascii ''u'', ascii ''i''], action = None,
        type = CharGroup\<rparr>]"
  by (subst matchesGroups_characterisation)
     (simp add: ascii_def ascii_toLowerCase_def less_Suc_eq)

text \<open>
  C3 (as stated) fails: a group that lists the capital \<open>A\<close> does not match the syllable
  \<open>a\<close>, although the two letters agree once both are case-folded.
\<close>

theorem matchesGroups_folds_target_only:
  "\<not> matchesGroups ascii_toLowerCase (ascii ''a'')
        [\<lparr>label = ascii ''A'', chars = Some [ascii ''A''], action = None, type = CharGroup\<rparr>]
   \<and> matches_folding_groups ascii_toLowerCase (ascii ''a'')
        [\<lparr>label = ascii ''A'', chars = Some [ascii ''A''], action = None, type = CharGroup\<rparr>]"
  by (simp add: matchesGroups_def matchesGroups_loop.simps matches_folding_groups_def
        ascii_def ascii_toLowerCase_def ascii_toLowerCase_def)

section \<open>Properties of the segmentation\<close>

text \<open>A fold that appends the outputs of its steps and keeps an invariant of the state.\<close>

lemma fold_collect:
  assumes "\<And>x acc s. x \<in> set xs \<Longrightarrow> I s \<Longrightarrow>
             fst (f x (acc, s)) = acc @ out x \<and> I (snd (f x (acc, s)))"
    and "I s"
  shows "fst (fold f xs (acc, s)) = acc @ concat (map out xs) \<and> I (snd (fold f xs (acc, s)))"
  using assms
proof (induction xs arbitrary: acc s)
  case Nil
  then show ?case by simp
next
  case (Cons x xs)
  obtain acc' s' where fx: "f x (acc, s) = (acc', s')" by (cases "f x (acc, s)")
  from Cons.prems(1) [of x s acc] Cons.prems(2) fx
  have a: "acc' = acc @ out x" and i: "I s'" by auto
  have "fst (fold f xs (acc', s')) = acc' @ concat (map out xs) \<and> I (snd (fold f xs (acc', s')))"
    by (rule Cons.IH) (use Cons.prems(1) i in auto)
  with fx a show ?case by simp
qed

lemma solve_refines:
  "memo_ok toLowerCase vp ks memo \<Longrightarrow>
     fst (solve toLowerCase vp ks i memo) = decompositions_from toLowerCase vp ks i \<and> memo_ok toLowerCase vp ks (snd (solve toLowerCase vp ks i memo))"
proof (induction toLowerCase vp ks i memo rule: solve.induct)
  case (1 toLowerCase vp ks i memo)
  show ?case
  proof (cases "i = length ks")
    case True
    have "solve toLowerCase vp ks i memo = ([[]], memo)"
      by (subst solve.simps) (simp add: True)
    moreover have "decompositions_from toLowerCase vp ks i = [[]]"
      by (subst decompositions_from.simps) (simp add: True)
    ultimately show ?thesis using "1.prems" by simp
  next
    case ne: False
    show ?thesis
    proof (cases "memo i")
      case (Some r)
      have "solve toLowerCase vp ks i memo = (r, memo)"
        using ne Some by (subst solve.simps) simp
      with Some "1.prems" show ?thesis
        by (simp add: memo_ok_def)
    next
      case None
      let ?ms = "\<lambda>n. filter (\<lambda>p. length p = n \<and> matchesGroups toLowerCase p (slice ks (int i) (int (i + n)))) vp"
      let ?inner = "\<lambda>n. (\<lambda>m (results, memo).
                                    let (suffixes, memo2) = solve toLowerCase vp ks (i + n) memo
                                    in (results @ map (\<lambda>suffix. \<lparr>str = m, len = n\<rparr> # suffix) suffixes,
                                        memo2))"
      let ?outer = "\<lambda>n (results, memo). fold (?inner n) (?ms n) (results, memo)"
      let ?ns = "[1 ..< min 6 (length ks - i) + 1]"
      let ?out = "\<lambda>n. concat (map (\<lambda>m. map (\<lambda>suffix. \<lparr>str = m, len = n\<rparr> # suffix)
                                  (decompositions_from toLowerCase vp ks (i + n))) (?ms n))"
      have inner: "fst (fold (?inner n) (?ms n) (acc, s)) = acc @ ?out n
                 \<and> memo_ok toLowerCase vp ks (snd (fold (?inner n) (?ms n) (acc, s)))"
        if n: "n \<in> set ?ns" and s: "memo_ok toLowerCase vp ks s" for n acc s
      proof (rule fold_collect [where I = "memo_ok toLowerCase vp ks"])
        fix m acc' s'
        assume m: "m \<in> set (?ms n)" and s': "memo_ok toLowerCase vp ks s'"
        have "fst (solve toLowerCase vp ks (i + n) s') = decompositions_from toLowerCase vp ks (i + n)
            \<and> memo_ok toLowerCase vp ks (snd (solve toLowerCase vp ks (i + n) s'))"
          by (rule "1.IH" [OF ne None refl refl n refl refl m s'])
        then show "fst (?inner n m (acc', s')) =
                     acc' @ map (\<lambda>suffix. \<lparr>str = m, len = n\<rparr> # suffix) (decompositions_from toLowerCase vp ks (i + n))
                 \<and> memo_ok toLowerCase vp ks (snd (?inner n m (acc', s')))"
          by (simp add: case_prod_beta)
      qed (rule s)
      have outer: "fst (fold ?outer ?ns ([], memo)) = [] @ concat (map ?out ?ns)
                 \<and> memo_ok toLowerCase vp ks (snd (fold ?outer ?ns ([], memo)))"
      proof (rule fold_collect [where I = "memo_ok toLowerCase vp ks"])
        fix n acc s
        assume "n \<in> set ?ns" and "memo_ok toLowerCase vp ks s"
        then show "fst (?outer n (acc, s)) = acc @ ?out n \<and> memo_ok toLowerCase vp ks (snd (?outer n (acc, s)))"
          using inner by simp
      qed (rule "1.prems")
      have dec: "decompositions_from toLowerCase vp ks i = concat (map ?out ?ns)"
        using ne by (subst decompositions_from.simps) simp
      have sol: "solve toLowerCase vp ks i memo =
             (let (results, memo1) = fold ?outer ?ns ([], memo) in (results, memo1(i \<mapsto> results)))"
        using ne None by (subst solve.simps) (simp add: Let_def)
      obtain res m1 where f: "fold ?outer ?ns ([], memo) = (res, m1)"
        by (cases "fold ?outer ?ns ([], memo)")
      with outer dec have r: "res = decompositions_from toLowerCase vp ks i" and ok: "memo_ok toLowerCase vp ks m1"
        by auto
      from ok r have ok': "memo_ok toLowerCase vp ks (m1(i \<mapsto> res))"
        by (simp add: memo_ok_def)
      have "solve toLowerCase vp ks i memo = (res, m1(i \<mapsto> res))"
        unfolding sol using f by simp
      with r ok' show ?thesis by (simp only: fst_conv snd_conv)
    qed
  qed
qed

lemma matchesGroups_length: "matchesGroups toLowerCase t gs \<Longrightarrow> length t = length gs"
  by (simp add: matchesGroups_def split: if_splits)

lemma slice_nat:
  "slice xs (int a) (int b) = take (min b (length xs) - min a (length xs)) (drop (min a (length xs)) xs)"
  by (simp add: slice_def relative_index_def Let_def)

lemma length_slice: "length (slice xs (int a) (int b)) = min b (length xs) - min a (length xs)"
  by (simp add: slice_nat)

lemma length_slice_add:
  "length (slice xs (int a) (int a + int n)) = min (a + n) (length xs) - min a (length xs)"
  using length_slice [of xs a "a + n"] by simp

lemma decomposition_from_Nil: "decomposition_from toLowerCase vp ks i [] = (i = length ks)"
  by (simp add: decomposition_from_def)

lemma decomposition_from_Cons:
  "decomposition_from toLowerCase vp ks i (s # d) =
     (str s \<in> set vp \<and> length (str s) \<le> 6 \<and>
      matchesGroups toLowerCase (str s) (slice ks (int i) (int (i + len s))) \<and>
      decomposition_from toLowerCase vp ks (i + len s) d)"
proof -
  have all_Suc: "(\<forall>k < Suc n. P k) = (P 0 \<and> (\<forall>k < n. P (Suc k)))" for n and P :: "nat \<Rightarrow> bool"
    by (metis less_Suc_eq_0_disj)
  show ?thesis
    by (simp add: decomposition_from_def offset_def all_Suc add.assoc) blast
qed

lemma in_concat_mapI: "x \<in> set xs \<Longrightarrow> y \<in> set (f x) \<Longrightarrow> y \<in> set (concat (map f xs))"
  by auto

lemma set_decompositions_from:
  "i \<le> length ks \<Longrightarrow>
     set (decompositions_from toLowerCase vp ks i) =
       {d. decomposition_from toLowerCase (filter (\<lambda>p. p \<noteq> []) vp) ks i d}"
proof (induction toLowerCase vp ks i rule: decompositions_from.induct)
  case (1 toLowerCase vp ks i)
  show ?case
  proof (cases "i = length ks")
    case True
    have "decompositions_from toLowerCase vp ks i = [[]]"
      by (subst decompositions_from.simps) (simp add: True)
    moreover have "decomposition_from toLowerCase (filter (\<lambda>p. p \<noteq> []) vp) ks i d = (d = [])" for d
    proof (cases d)
      case Nil
      then show ?thesis by (simp add: decomposition_from_Nil True)
    next
      case (Cons s d')
      have "\<not> (str s \<in> set (filter (\<lambda>p. p \<noteq> []) vp) \<and>
                matchesGroups toLowerCase (str s) (slice ks (int i) (int (i + len s))))"
        using True
        by (auto dest!: matchesGroups_length simp: length_slice length_slice_add)
      with Cons show ?thesis by (auto simp: decomposition_from_Cons)
    qed
    ultimately show ?thesis by simp
  next
    case ne: False
    with "1.prems" have lt: "i < length ks" by simp
    let ?ns = "[1 ..< min 6 (length ks - i) + 1]"
    let ?ms = "\<lambda>n. filter (\<lambda>p. length p = n \<and> matchesGroups toLowerCase p (slice ks (int i) (int (i + n)))) vp"
    have ih: "set (decompositions_from toLowerCase vp ks (i + n)) = {d. decomposition_from toLowerCase (filter (\<lambda>p. p \<noteq> []) vp) ks (i + n) d}"
      if "n \<in> set ?ns" and "m \<in> set (?ms n)" for n m
      using that "1.prems" by (intro "1.IH" [OF ne that]) auto
    have unf: "decompositions_from toLowerCase vp ks i =
        concat (map (\<lambda>n. concat (map (\<lambda>m. map (\<lambda>suffix. \<lparr>str = m, len = n\<rparr> # suffix)
                                  (decompositions_from toLowerCase vp ks (i + n))) (?ms n))) ?ns)"
      using ne by (subst decompositions_from.simps) simp
    show ?thesis
    proof (intro set_eqI iffI)
      fix d assume "d \<in> set (decompositions_from toLowerCase vp ks i)"
      then obtain n m suf where n: "n \<in> set ?ns" and m: "m \<in> set (?ms n)"
        and suf: "suf \<in> set (decompositions_from toLowerCase vp ks (i + n))"
        and d: "d = \<lparr>str = m, len = n\<rparr> # suf"
        unfolding unf by (auto simp only: set_concat set_map)
      from suf ih [OF n m] have "decomposition_from toLowerCase (filter (\<lambda>p. p \<noteq> []) vp) ks (i + n) suf" by simp
      with n m d show "d \<in> {d. decomposition_from toLowerCase (filter (\<lambda>p. p \<noteq> []) vp) ks i d}"
        by (auto simp: decomposition_from_Cons)
    next
      fix d assume "d \<in> {d. decomposition_from toLowerCase (filter (\<lambda>p. p \<noteq> []) vp) ks i d}"
      then have dd: "decomposition_from toLowerCase (filter (\<lambda>p. p \<noteq> []) vp) ks i d" by simp
      with ne obtain s suf where d: "d = s # suf"
        by (cases d) (auto simp: decomposition_from_Nil)
      from dd d have sv': "str s \<in> set (filter (\<lambda>p. p \<noteq> []) vp)" and l6: "length (str s) \<le> 6"
        and mg: "matchesGroups toLowerCase (str s) (slice ks (int i) (int (i + len s)))"
        and rest: "decomposition_from toLowerCase (filter (\<lambda>p. p \<noteq> []) vp) ks (i + len s) suf"
        by (simp_all add: decomposition_from_Cons)
      from rest have le: "i + len s \<le> length ks"
        by (simp add: decomposition_from_def)
      from mg have ls: "length (str s) = len s"
        using le by (auto dest!: matchesGroups_length simp: length_slice length_slice_add)
      from sv' have sv: "str s \<in> set vp" and "str s \<noteq> []" by simp_all
      note \<open>str s \<noteq> []\<close>
      with ls have "1 \<le> len s" by (cases "str s") auto
      with l6 ls le have "1 \<le> len s \<and> len s < min 6 (length ks - i) + 1" by simp
      then have n: "len s \<in> set ?ns" by (simp only: set_upt atLeastLessThan_iff)
      have m: "str s \<in> set (?ms (len s))"
        using sv ls mg by simp
      from rest ih [OF n m] have "suf \<in> set (decompositions_from toLowerCase vp ks (i + len s))" by simp
      moreover have "s = \<lparr>str = str s, len = len s\<rparr>" by simp
      ultimately have "d \<in> set (map (\<lambda>suffix. \<lparr>str = str s, len = len s\<rparr> # suffix)
               (decompositions_from toLowerCase vp ks (i + len s)))"
        using d by (simp add: image_iff)
      with m have "d \<in> set (concat (map (\<lambda>m. map (\<lambda>suffix. \<lparr>str = m, len = len s\<rparr> # suffix)
                                  (decompositions_from toLowerCase vp ks (i + len s))) (?ms (len s))))"
        by (rule in_concat_mapI)
      with n show "d \<in> set (decompositions_from toLowerCase vp ks i)"
        unfolding unf by (rule in_concat_mapI)
    qed
  qed
qed

lemma memo_ok_empty: "memo_ok toLowerCase vp ks Map.empty"
  by (simp add: memo_ok_def)

lemma segmentations_eq:
  "ks \<noteq> [] \<Longrightarrow> segmentations toLowerCase c ks = decompositions_from toLowerCase (VALID_PINYINS c) ks 0"
  using solve_refines [OF memo_ok_empty, of toLowerCase "VALID_PINYINS c" ks 0]
  by (simp add: segmentations_def)

lemma is_decomposition_from_0: "is_decomposition toLowerCase vp ks d = decomposition_from toLowerCase vp ks 0 d"
  by (simp add: is_decomposition_def decomposition_from_def)

lemma demo_segmentations:
  "segmentations ascii_toLowerCase demo_constants purui_keys =
     [[\<lparr>str = ascii ''pu'', len = 2\<rparr>, \<lparr>str = ascii ''rui'', len = 3\<rparr>],
      [\<lparr>str = ascii ''pi'', len = 2\<rparr>, \<lparr>str = ascii ''rui'', len = 3\<rparr>]]"
proof -
  have "purui_keys \<noteq> []" by (simp add: purui_keys_def)
  then have "segmentations ascii_toLowerCase demo_constants purui_keys =
      decompositions_from ascii_toLowerCase (VALID_PINYINS demo_constants) purui_keys 0"
    by (rule segmentations_eq)
  also have "\<dots> = [[\<lparr>str = ascii ''pu'', len = 2\<rparr>, \<lparr>str = ascii ''rui'', len = 3\<rparr>],
      [\<lparr>str = ascii ''pi'', len = 2\<rparr>, \<lparr>str = ascii ''rui'', len = 3\<rparr>]]"
    by (simp add: decompositions_from.simps demo_constants_def purui_keys_def letter_key_def
          ascii_def slice_def relative_index_def matchesGroups_def matchesGroups_loop.simps
          ascii_toLowerCase_def upt_rec)
  finally show ?thesis .
qed

text \<open>
  C1 (as amended). For every non-empty buffer \<open>segmentations\<close> returns exactly the
  full-length decompositions: the lengths of the segments of a returned decomposition
  sum to the length of the buffer, each segment is a non-empty dictionary syllable of at
  most six letters that \<open>matchesGroups\<close> accepts against the slice of the buffer it
  consumes, and every decomposition with these properties is returned. For the empty
  buffer the result is empty.
\<close>

theorem segmentations_all_decompositions:
  "set (segmentations toLowerCase c ks) =
     (if ks = [] then {}
      else {d. is_decomposition toLowerCase (filter (\<lambda>p. p \<noteq> []) (VALID_PINYINS c)) ks d})"
proof (cases "ks = []")
  case True
  then show ?thesis by (simp add: segmentations_def)
next
  case False
  have "{d. decomposition_from toLowerCase (filter (\<lambda>p. p \<noteq> []) (VALID_PINYINS c)) ks 0 d} =
        {d. is_decomposition toLowerCase (filter (\<lambda>p. p \<noteq> []) (VALID_PINYINS c)) ks d}"
    by (auto simp: is_decomposition_from_0)
  with False show ?thesis
    by (simp add: segmentations_eq set_decompositions_from)
qed

theorem segmentations_all_decompositions_witness:
  "purui_keys \<noteq> [] \<and>
   set (segmentations ascii_toLowerCase demo_constants purui_keys) =
     {d. is_decomposition ascii_toLowerCase
           (filter (\<lambda>p. p \<noteq> []) (VALID_PINYINS demo_constants)) purui_keys d} \<and>
   is_decomposition ascii_toLowerCase (filter (\<lambda>p. p \<noteq> []) (VALID_PINYINS demo_constants))
     purui_keys [\<lparr>str = ascii ''pu'', len = 2\<rparr>, \<lparr>str = ascii ''rui'', len = 3\<rparr>] \<and>
   set (segmentations ascii_toLowerCase demo_constants []) = {}"
proof -
  have k: "purui_keys \<noteq> []" by (simp add: purui_keys_def)
  have m: "[\<lparr>str = ascii ''pu'', len = 2\<rparr>, \<lparr>str = ascii ''rui'', len = 3\<rparr>]
             \<in> set (segmentations ascii_toLowerCase demo_constants purui_keys)"
    unfolding demo_segmentations by (rule list.set_intros)
  have eq: "set (segmentations ascii_toLowerCase demo_constants purui_keys) =
     {d. is_decomposition ascii_toLowerCase
           (filter (\<lambda>p. p \<noteq> []) (VALID_PINYINS demo_constants)) purui_keys d}"
    using segmentations_all_decompositions [of ascii_toLowerCase demo_constants purui_keys] k
    by (simp only: if_False)
  from m have "is_decomposition ascii_toLowerCase
     (filter (\<lambda>p. p \<noteq> []) (VALID_PINYINS demo_constants)) purui_keys
     [\<lparr>str = ascii ''pu'', len = 2\<rparr>, \<lparr>str = ascii ''rui'', len = 3\<rparr>]"
    unfolding eq by (rule CollectD)
  moreover have "set (segmentations ascii_toLowerCase demo_constants []) = {}"
    using segmentations_all_decompositions [of ascii_toLowerCase demo_constants "[]"]
    by simp
  ultimately show ?thesis using k eq by (intro conjI)
qed

lemma pu_segmentations:
  "segmentations ascii_toLowerCase empty_syllable_constants pu_keys =
     [[\<lparr>str = ascii ''pu'', len = 2\<rparr>]]"
proof -
  have "pu_keys \<noteq> []" by (simp add: pu_keys_def)
  then have "segmentations ascii_toLowerCase empty_syllable_constants pu_keys =
      decompositions_from ascii_toLowerCase (VALID_PINYINS empty_syllable_constants) pu_keys 0"
    by (rule segmentations_eq)
  also have "\<dots> = [[\<lparr>str = ascii ''pu'', len = 2\<rparr>]]"
    by (simp add: decompositions_from.simps empty_syllable_constants_def pu_keys_def letter_key_def
          ascii_def slice_def relative_index_def matchesGroups_def matchesGroups_loop.simps
          ascii_toLowerCase_def upt_conv_Cons)
  finally show ?thesis .
qed

text \<open>
  C1 (as stated) fails for the empty buffer: the empty decomposition is a full-length
  decomposition of it, and \<open>segmentations\<close> does not return it. It also fails for a
  dictionary that lists the empty string: the empty syllable followed by pu decomposes
  the two keys of pu in the sense of the claim, and \<open>segmentations\<close>, whose chunks have
  at least one key, returns pu alone.
\<close>

theorem segmentations_empty_buffer_misses_empty_decomposition:
  "is_decomposition ascii_toLowerCase (VALID_PINYINS demo_constants) [] [] \<and>
   [] \<notin> set (segmentations ascii_toLowerCase demo_constants []) \<and>
   is_decomposition ascii_toLowerCase (VALID_PINYINS empty_syllable_constants) pu_keys
     [\<lparr>str = [], len = 0\<rparr>, \<lparr>str = ascii ''pu'', len = 2\<rparr>] \<and>
   segmentations ascii_toLowerCase empty_syllable_constants pu_keys =
     [[\<lparr>str = ascii ''pu'', len = 2\<rparr>]]"
proof (intro conjI)
  show "is_decomposition ascii_toLowerCase (VALID_PINYINS demo_constants) [] []"
    by (simp add: is_decomposition_def)
  show "[] \<notin> set (segmentations ascii_toLowerCase demo_constants [])"
    by (simp add: segmentations_def)
  show "is_decomposition ascii_toLowerCase (VALID_PINYINS empty_syllable_constants) pu_keys
     [\<lparr>str = [], len = 0\<rparr>, \<lparr>str = ascii ''pu'', len = 2\<rparr>]"
    by (simp add: is_decomposition_def offset_def empty_syllable_constants_def pu_keys_def
          letter_key_def ascii_def slice_def relative_index_def matchesGroups_def
          matchesGroups_loop.simps ascii_toLowerCase_def less_Suc_eq numeral_2_eq_2)
  show "segmentations ascii_toLowerCase empty_syllable_constants pu_keys =
     [[\<lparr>str = ascii ''pu'', len = 2\<rparr>]]"
    by (rule pu_segmentations)
qed

text \<open>
  C2 (as amended). For the empty buffer \<open>segmentations\<close> returns the empty list of
  decompositions (not the list holding the empty decomposition), \<open>candidates\<close> returns
  the empty list, and \<open>availablePinyinSegments\<close> returns the empty list.
\<close>

theorem empty_buffer_results:
  "segmentations toLowerCase c [] = [] \<and>
   candidates c [] (segmentations toLowerCase c []) usage mode focus = [] \<and>
   availablePinyinSegments localeCompare toLowerCase c [] = []"
  by (simp add: segmentations_def candidates_def availablePinyinSegments_def)

text \<open>
  C2 (as stated) fails: for the empty buffer the result of \<open>segmentations\<close> is not the
  one-element list that holds the empty decomposition.
\<close>

theorem segmentations_empty_buffer_not_singleton:
  "segmentations ascii_toLowerCase demo_constants [] \<noteq> [[]]"
  by (simp add: segmentations_def)

section \<open>Properties of the sort and of the syllable prefixes\<close>

lemma set_insert_sorted: "set (insert_sorted cmp x xs) = insert x (set xs)"
  by (induction xs) auto

lemma set_Array_sort: "set (Array_sort cmp xs) = set xs"
  by (induction xs) (simp_all add: Array_sort_def set_insert_sorted)

lemma length_insert_sorted: "length (insert_sorted cmp x xs) = Suc (length xs)"
  by (induction xs) auto

lemma length_Array_sort: "length (Array_sort cmp xs) = length xs"
  by (induction xs) (simp_all add: Array_sort_def length_insert_sorted)

lemma sorted_insert_sorted:
  assumes total: "\<And>a b. cmp a b \<le> 0 \<or> cmp b a \<le> 0"
    and trans: "\<And>a b c. cmp a b \<le> 0 \<Longrightarrow> cmp b c \<le> 0 \<Longrightarrow> cmp a c \<le> 0"
  shows "sorted_wrt (\<lambda>a b. cmp a b \<le> 0) xs \<Longrightarrow>
         sorted_wrt (\<lambda>a b. cmp a b \<le> 0) (insert_sorted cmp x xs)"
proof (induction xs)
  case Nil
  then show ?case by simp
next
  case (Cons y ys)
  show ?case
  proof (cases "cmp x y \<le> 0")
    case True
    have "cmp x z \<le> 0" if "z \<in> set ys" for z
    proof -
      from Cons.prems that have "cmp y z \<le> 0" by simp
      with True show ?thesis by (rule trans)
    qed
    with True Cons.prems show ?thesis by simp
  next
    case False
    with total [of x y] have yx: "cmp y x \<le> 0" by simp
    from Cons have "sorted_wrt (\<lambda>a b. cmp a b \<le> 0) (insert_sorted cmp x ys)" by simp
    moreover have "\<forall>z \<in> set (insert_sorted cmp x ys). cmp y z \<le> 0"
      using yx Cons.prems by (simp add: set_insert_sorted)
    ultimately show ?thesis using False by simp
  qed
qed

lemma sorted_Array_sort:
  assumes total: "\<And>a b. cmp a b \<le> 0 \<or> cmp b a \<le> 0"
    and trans: "\<And>a b c. cmp a b \<le> 0 \<Longrightarrow> cmp b c \<le> 0 \<Longrightarrow> cmp a c \<le> 0"
  shows "sorted_wrt (\<lambda>a b. cmp a b \<le> 0) (Array_sort cmp xs)"
proof (induction xs)
  case Nil
  then show ?case by (simp add: Array_sort_def)
next
  case (Cons x xs)
  have "Array_sort cmp (x # xs) = insert_sorted cmp x (Array_sort cmp xs)"
    by (simp add: Array_sort_def)
  with Cons show ?case
    by (simp add: sorted_insert_sorted [of cmp, OF total trans])
qed

lemma compare_units_total: "compare_units a b \<le> 0 \<or> compare_units b a \<le> 0"
  by (induction a b rule: compare_units.induct) auto

lemma compare_units_trans:
  "compare_units a b \<le> 0 \<Longrightarrow> compare_units b c \<le> 0 \<Longrightarrow> compare_units a c \<le> 0"
proof (induction a b arbitrary: c rule: compare_units.induct)
  case 1
  then show ?case by simp
next
  case (2 y ys)
  then show ?case by (cases c) auto
next
  case (3 x xs)
  then show ?case by simp
next
  case (4 x xs y ys)
  show ?case
  proof (cases c)
    case Nil
    with "4.prems" show ?thesis by simp
  next
    case (Cons z zs)
    show ?thesis
    proof (cases "x < y")
      case True
      with "4.prems" Cons show ?thesis by (simp split: if_splits)
    next
      case nlt: False
      with "4.prems"(1) have xy: "x = y" and r1: "compare_units xs ys \<le> 0"
        by (simp_all split: if_splits)
      show ?thesis
      proof (cases "y < z")
        case True
        with xy Cons show ?thesis by simp
      next
        case False
        with "4.prems"(2) Cons have yz: "y = z" and r2: "compare_units ys zs \<le> 0"
          by (simp_all split: if_splits)
        from "4.IH" [OF nlt _ r1 r2] xy have "compare_units xs zs \<le> 0" by simp
        with xy yz Cons show ?thesis by simp
      qed
    qed
  qed
qed

text \<open>
  C10. Whenever \<open>localeCompare\<close> is a consistent comparator (total and transitive),
  \<open>availablePinyinSegments\<close> returns its segments sorted by consumed length ascending,
  and segments of equal length in the order of \<open>localeCompare\<close> on their syllables. The
  order of the dictionary is not kept: see the evaluation after the theorem, where the
  syllable listed first in the dictionary comes last.
\<close>

theorem availablePinyinSegments_sorted:
  assumes total: "\<forall>a b. localeCompare a b \<le> 0 \<or> localeCompare b a \<le> 0"
    and trans: "\<forall>a b c. localeCompare a b \<le> 0 \<and> localeCompare b c \<le> 0 \<longrightarrow>
                  localeCompare a c \<le> 0"
  shows "sorted_wrt
           (\<lambda>a b. len a < len b \<or> (len a = len b \<and> localeCompare (str a) (str b) \<le> 0))
           (availablePinyinSegments localeCompare toLowerCase c ks)"
proof (cases "ks = []")
  case True
  then show ?thesis by (simp add: availablePinyinSegments_def)
next
  case False
  define cmp :: "Segment \<Rightarrow> Segment \<Rightarrow> int" where
    "cmp = (\<lambda>a b. if int (len a) - int (len b) \<noteq> 0 then int (len a) - int (len b)
                    else localeCompare (str a) (str b))"
  have le: "(cmp a b \<le> 0) = (len a < len b \<or> (len a = len b \<and> localeCompare (str a) (str b) \<le> 0))"
    for a b
    by (auto simp: cmp_def)
  have t: "cmp a b \<le> 0 \<or> cmp b a \<le> 0" for a b
    using total unfolding le by (cases "len a < len b"; cases "len b < len a") auto
  have tr: "cmp a c \<le> 0" if ab: "cmp a b \<le> 0" and bc: "cmp b c \<le> 0" for a b c
  proof (cases "len a < len b \<or> len b < len c")
    case True
    with ab bc show ?thesis unfolding le by auto
  next
    case False
    with ab bc have "len a = len b" "len b = len c"
      "localeCompare (str a) (str b) \<le> 0" "localeCompare (str b) (str c) \<le> 0"
      unfolding le by auto
    with trans show ?thesis unfolding le by metis
  qed
  have "sorted_wrt (\<lambda>a b. cmp a b \<le> 0) (Array_sort cmp xs)" for xs
    using t tr by (rule sorted_Array_sort)
  then have "sorted_wrt (\<lambda>a b. len a < len b \<or> (len a = len b \<and> localeCompare (str a) (str b) \<le> 0))
      (Array_sort cmp xs)" for xs
    unfolding le .
  then show ?thesis
    using False by (simp add: availablePinyinSegments_def Let_def cmp_def)
qed




lemma prefix_available:
  "availablePinyinSegments compare_units ascii_toLowerCase prefix_constants purui_keys =
     [\<lparr>str = ascii ''pi'', len = 2\<rparr>, \<lparr>str = ascii ''pu'', len = 2\<rparr>,
      \<lparr>str = ascii ''yu'', len = 2\<rparr>, \<lparr>str = ascii ''yue'', len = 3\<rparr>]"
proof -
  have collected: "fold (\<lambda>n results.
                      let chunkSlice = slice purui_keys 0 (int n);
                          matches = filter (\<lambda>p. length p = n \<and> matchesGroups ascii_toLowerCase p chunkSlice)
                                      (VALID_PINYINS prefix_constants)
                      in fold (\<lambda>m results. results @ [\<lparr>str = m, len = n\<rparr>]) matches results)
                   [1 ..< min 6 (length purui_keys) + 1] [] =
     [\<lparr>str = ascii ''pu'', len = 2\<rparr>, \<lparr>str = ascii ''pi'', len = 2\<rparr>,
      \<lparr>str = ascii ''yu'', len = 2\<rparr>, \<lparr>str = ascii ''yue'', len = 3\<rparr>]"
    by (simp add: prefix_constants_def purui_keys_def letter_key_def
          ascii_def slice_def relative_index_def matchesGroups_def matchesGroups_loop.simps
          ascii_toLowerCase_def upt_conv_Cons)
  have sorted: "Array_sort (\<lambda>a b. if int (len a) - int (len b) \<noteq> 0 then int (len a) - int (len b)
                    else compare_units (str a) (str b))
     [\<lparr>str = ascii ''pu'', len = 2\<rparr>, \<lparr>str = ascii ''pi'', len = 2\<rparr>,
      \<lparr>str = ascii ''yu'', len = 2\<rparr>, \<lparr>str = ascii ''yue'', len = 3\<rparr>] =
     [\<lparr>str = ascii ''pi'', len = 2\<rparr>, \<lparr>str = ascii ''pu'', len = 2\<rparr>,
      \<lparr>str = ascii ''yu'', len = 2\<rparr>, \<lparr>str = ascii ''yue'', len = 3\<rparr>]"
    by (simp add: Array_sort_def ascii_def)
  have "length purui_keys \<noteq> 0" by (simp add: purui_keys_def)
  then show ?thesis
    unfolding availablePinyinSegments_def Let_def collected [unfolded Let_def] sorted by simp
qed

theorem availablePinyinSegments_sorted_witness:
  "sorted_wrt
     (\<lambda>a b. len a < len b \<or> (len a = len b \<and> compare_units (str a) (str b) \<le> 0))
     (availablePinyinSegments compare_units ascii_toLowerCase prefix_constants purui_keys) \<and>
   map str (availablePinyinSegments compare_units ascii_toLowerCase prefix_constants purui_keys) =
     [ascii ''pi'', ascii ''pu'', ascii ''yu'', ascii ''yue''] \<and>
   VALID_PINYINS prefix_constants = [ascii ''yue'', ascii ''pu'', ascii ''pi'', ascii ''yu'']"
proof -
  have t: "\<forall>a b. compare_units a b \<le> 0 \<or> compare_units b a \<le> 0"
    by (simp add: compare_units_total)
  have tr: "\<forall>a b c. compare_units a b \<le> 0 \<and> compare_units b c \<le> 0 \<longrightarrow>
              compare_units a c \<le> 0"
    using compare_units_trans by blast
  note availablePinyinSegments_sorted [OF t tr, of ascii_toLowerCase prefix_constants purui_keys]
  moreover have "map str (availablePinyinSegments compare_units ascii_toLowerCase prefix_constants purui_keys) =
     [ascii ''pi'', ascii ''pu'', ascii ''yu'', ascii ''yue'']"
    by (simp add: prefix_available)
  moreover have "VALID_PINYINS prefix_constants =
     [ascii ''yue'', ascii ''pu'', ascii ''pi'', ascii ''yu'']"
    by (simp add: prefix_constants_def)
  ultimately show ?thesis by (intro conjI)
qed

section \<open>Properties of the ranker\<close>

lemma addResult_eq:
  "addResult mode usage d v b n t p (P, L) =
     (if v @ ascii ''-'' @ toString n \<in> P then (P, L)
      else (insert (v @ ascii ''-'' @ toString n) P, L @ [scored mode usage (d, v, b, n, t, p)]))"
  by (simp add: addResult_def scored_def Let_def)

lemma fold_hanzi_requests:
  "fold (\<lambda>(idx, h). addResult mode usage h h b n TChar (of_nat idx * p)) (enumerate 0 hs) st =
   fold (apply_request mode usage) (hanzi_requests b n p hs) st"
proof -
  have "(\<lambda>(idx, h). addResult mode usage h h b n TChar (of_nat idx * p)) =
        apply_request mode usage \<circ> (\<lambda>(idx, h). (h, h, b, n, TChar, of_nat idx * p))"
    by (auto simp: apply_request_def fun_eq_iff)
  then show ?thesis by (simp add: hanzi_requests_def fold_map)
qed

lemma fold_phrase_requests:
  "fold (\<lambda>(idx, phrase). addResult mode usage phrase phrase 150 n TPhrase (of_nat idx * (1 / 10)))
     (enumerate 0 phrases) st =
   fold (apply_request mode usage)
     (map (\<lambda>(idx, phrase). (phrase, phrase, 150, n, TPhrase, of_nat idx * (1 / 10)))
        (enumerate 0 phrases)) st"
proof -
  have "(\<lambda>(idx, phrase). addResult mode usage phrase phrase 150 n TPhrase (of_nat idx * (1 / 10))) =
        apply_request mode usage \<circ>
          (\<lambda>(idx, phrase). (phrase, phrase, 150, n, TPhrase, of_nat idx * (1 / 10)))"
    by (auto simp: apply_request_def fun_eq_iff)
  then show ?thesis by (simp add: fold_map)
qed

lemma join_pinyin_Suc:
  "i < length segPath \<Longrightarrow>
     join_pinyin (take (Suc i) segPath) =
       join_pinyin (take i segPath) @ (if i > 0 then [39] else []) @ str (segPath ! i)"
  by (simp add: join_pinyin_def take_Suc_conv_app_nth enumerate_append_eq min_def)

lemma sum_len_Suc:
  "i < length segPath \<Longrightarrow>
     sum_list (map len (take (Suc i) segPath)) =
       sum_list (map len (take i segPath)) + len (segPath ! i)"
  by (simp add: take_Suc_conv_app_nth)

lemma phrase_loop:
  "n \<le> length segPath \<Longrightarrow>
   fold
       (\<lambda>i (accumulatedPinyin, accumulatedLen, st).
          let s = segPath ! i;
              accumulatedPinyin' = accumulatedPinyin @ (if i > 0 then [39] else []) @ str s;
              accumulatedLen' = accumulatedLen + len s
          in (accumulatedPinyin', accumulatedLen',
              (case COMMON_PHRASES c accumulatedPinyin' of
                 Some phrases \<Rightarrow>
                   fold (\<lambda>(idx, phrase).
                           addResult mode usage phrase phrase 150
                             accumulatedLen' TPhrase (of_nat idx * (1 / 10)))
                     (enumerate 0 phrases) st
               | None \<Rightarrow> st)))
       [0 ..< n] ([], 0, st) =
   (join_pinyin (take n segPath), sum_list (map len (take n segPath)),
    fold (apply_request mode usage) (concat (map (phrase_requests_at c segPath) [0 ..< n])) st)"
proof (induction n)
  case 0
  then show ?case by (simp add: join_pinyin_def)
next
  case (Suc n)
  then have n: "n < length segPath" by simp
  let ?f = "\<lambda>i (accumulatedPinyin, accumulatedLen, st).
          let s = segPath ! i;
              accumulatedPinyin' = accumulatedPinyin @ (if i > 0 then [39] else []) @ str s;
              accumulatedLen' = accumulatedLen + len s
          in (accumulatedPinyin', accumulatedLen',
              (case COMMON_PHRASES c accumulatedPinyin' of
                 Some phrases \<Rightarrow>
                   fold (\<lambda>(idx, phrase).
                           addResult mode usage phrase phrase 150
                             accumulatedLen' TPhrase (of_nat idx * (1 / 10)))
                     (enumerate 0 phrases) st
               | None \<Rightarrow> st))"
  let ?S = "fold (apply_request mode usage) (concat (map (phrase_requests_at c segPath) [0 ..< n])) st"
  have ih: "fold ?f [0 ..< n] ([], 0, st) =
      (join_pinyin (take n segPath), sum_list (map len (take n segPath)), ?S)"
    using Suc by simp
  have step: "?f n (join_pinyin (take n segPath), sum_list (map len (take n segPath)), ?S) =
      (join_pinyin (take (Suc n) segPath), sum_list (map len (take (Suc n) segPath)),
       fold (apply_request mode usage) (phrase_requests_at c segPath n) ?S)"
    unfolding join_pinyin_Suc [OF n] sum_len_Suc [OF n] phrase_requests_at_def
      Let_def prod.case
    by (cases "COMMON_PHRASES c
           (join_pinyin (take n segPath) @ (if 0 < n then [39] else []) @ str (segPath ! n))")
       (simp_all only: option.case fold_phrase_requests fold.simps id_apply)
  have "fold ?f [0 ..< Suc n] ([], 0, st) = ?f n (fold ?f [0 ..< n] ([], 0, st))"
    by simp
  also have "\<dots> = (join_pinyin (take (Suc n) segPath), sum_list (map len (take (Suc n) segPath)),
       fold (apply_request mode usage) (phrase_requests_at c segPath n) ?S)"
    unfolding ih by (rule step)
  also have "fold (apply_request mode usage) (phrase_requests_at c segPath n) ?S =
      fold (apply_request mode usage)
        (concat (map (phrase_requests_at c segPath) [0 ..< Suc n])) st"
    by simp
  finally show ?case .
qed

lemma phrase_matching_requests:
  "phrase_matching c mode usage segPath st =
     fold (apply_request mode usage) (phrase_requests c segPath) st"
  by (simp add: phrase_matching_def phrase_requests_def phrase_loop)

lemma first_segment_hanzi_requests:
  "first_segment_hanzi c mode usage segPath st =
     fold (apply_request mode usage)
       (case PINYIN_TO_HANZI c (str (segPath ! 0)) of
          Some hanzis \<Rightarrow> hanzi_requests 50 (len (segPath ! 0)) (1 / 2) hanzis
        | None \<Rightarrow> []) st"
  unfolding first_segment_hanzi_def Let_def fold_hanzi_requests
  by (simp split: option.split)

lemma path_requests_fold:
  "(if length segPath = 0 then st
    else first_segment_hanzi c mode usage segPath (phrase_matching c mode usage segPath st)) =
   fold (apply_request mode usage) (path_requests c segPath) st"
  by (simp add: path_requests_def phrase_matching_requests first_segment_hanzi_requests)

lemma fold_paths:
  "fold (\<lambda>segPath st.
           if length segPath = 0 then st
           else first_segment_hanzi c mode usage segPath (phrase_matching c mode usage segPath st))
     segs st =
   fold (apply_request mode usage) (concat (map (path_requests c) segs)) st"
proof (induction segs arbitrary: st)
  case Nil
  then show ?case by simp
next
  case (Cons p ps)
  show ?case
    using path_requests_fold [of p st c mode usage] Cons.IH by simp
qed

lemma candidates_requests:
  "candidates c ks segs usage mode focus =
     Array_sort (\<lambda>a b. score b - score a)
       (snd (fold (apply_request mode usage) (requests c ks segs focus) ({}, [])))"
proof (cases "length ks = 0")
  case True
  then show ?thesis by (simp add: candidates_def requests_def Array_sort_def)
next
  case False
  show ?thesis
  proof (cases focus)
    case None
    with False show ?thesis
      unfolding candidates_def requests_def Let_def fold_paths
      by (simp add: apply_request_def)
  next
    case (Some f)
    with False show ?thesis
      unfolding candidates_def requests_def Let_def fold_hanzi_requests
      by (simp split: option.split)
  qed
qed


lemma toString_nonempty: "toString n \<noteq> []"
  by (subst toString.simps) simp

lemma toString_no_minus: "45 \<notin> set (toString n)"
proof (induction n rule: toString.induct)
  case (1 n)
  show ?case
  proof (cases "n < 10")
    case True
    then show ?thesis by (subst toString.simps) simp
  next
    case False
    with "1.IH" show ?thesis by (subst toString.simps) simp
  qed
qed

lemma toString_inj: "toString a = toString b \<Longrightarrow> a = b"
proof (induction a arbitrary: b rule: toString.induct)
  case (1 a)
  have big: "length (toString m) \<ge> 2" if "\<not> m < 10" for m
  proof -
    have "toString m = toString (m div 10) @ [48 + m mod 10]"
      using that by (subst toString.simps) simp
    moreover have "length (toString (m div 10)) \<ge> 1"
      using toString_nonempty [of "m div 10"] by (cases "toString (m div 10)") auto
    ultimately show ?thesis by simp
  qed
  have small: "toString m = [48 + m]" if "m < 10" for m
    using that by (subst toString.simps) simp
  show ?case
  proof (cases "a < 10")
    case True
    show ?thesis
    proof (cases "b < 10")
      case b: True
      with True "1.prems" show ?thesis by (simp add: small)
    next
      case False
      from big [OF False] "1.prems" small [OF True] have "2 \<le> length [48 + a]" by simp
      then show ?thesis by simp
    qed
  next
    case False
    show ?thesis
    proof (cases "b < 10")
      case True
      from big [OF False] "1.prems" small [OF True] have "2 \<le> length [48 + b]" by simp
      then show ?thesis by simp
    next
      case b: False
      have ea: "toString a = toString (a div 10) @ [48 + a mod 10]"
        using False by (subst toString.simps) simp
      have eb: "toString b = toString (b div 10) @ [48 + b mod 10]"
        using b by (subst toString.simps) simp
      from "1.prems" ea eb have d: "toString (a div 10) = toString (b div 10)"
        and m: "a mod 10 = b mod 10" by simp_all
      from "1.IH" [OF False d] have "a div 10 = b div 10" .
      with m show ?thesis by (metis div_mult_mod_eq)
    qed
  qed
qed

lemma append_separator_eq:
  "a \<notin> set ys \<Longrightarrow> a \<notin> set ys' \<Longrightarrow> xs @ a # ys = xs' @ a # ys' \<Longrightarrow> xs = xs' \<and> ys = ys'"
proof (induction xs arbitrary: xs')
  case Nil
  then show ?case by (cases xs') auto
next
  case (Cons x xs)
  show ?case
  proof (cases xs')
    case Nil
    with Cons.prems show ?thesis by auto
  next
    case (Cons x' t)
    with Cons.prems Cons.IH [of t] show ?thesis by simp
  qed
qed

lemma request_key_eq_iff: "request_key r = request_key r' \<longleftrightarrow> request_pair r = request_pair r'"
proof -
  obtain d v b n t p where r: "r = (d, v, b, n, t, p)" by (cases r)
  obtain d' v' b' n' t' p' where r': "r' = (d', v', b', n', t', p')" by (cases r')
  have "v = v' \<and> n = n'" if "v @ 45 # toString n = v' @ 45 # toString n'"
  proof -
    from append_separator_eq [OF toString_no_minus toString_no_minus that]
    show ?thesis by (auto dest: toString_inj)
  qed
  then show ?thesis
    by (auto simp: r r' request_key_def request_pair_def ascii_def)
qed

lemma apply_request_eq:
  "apply_request mode usage r (P, L) =
     (if request_key r \<in> P then (P, L) else (insert (request_key r) P, L @ [scored mode usage r]))"
  by (cases r) (simp add: apply_request_def request_key_def addResult_eq)

lemma fold_apply_request:
  "snd (fold (apply_request mode usage) rs (P, L)) =
     L @ map (scored mode usage)
           (first_occurrences request_pair (filter (\<lambda>r. request_key r \<notin> P) rs))"
proof (induction rs arbitrary: P L)
  case Nil
  then show ?case by simp
next
  case (Cons r rs)
  show ?case
  proof (cases "request_key r \<in> P")
    case True
    with Cons.IH [of P L] show ?thesis by (simp add: apply_request_eq)
  next
    case False
    have "filter (\<lambda>y. request_pair y \<noteq> request_pair r) (filter (\<lambda>y. request_key y \<notin> P) rs) =
          filter (\<lambda>y. request_key y \<notin> insert (request_key r) P) rs"
      by (auto simp: request_key_eq_iff intro: filter_cong)
    with False Cons.IH [of "insert (request_key r) P" "L @ [scored mode usage r]"]
    show ?thesis by (simp add: apply_request_eq)
  qed
qed

lemma candidates_first_occurrences:
  "candidates c ks segs usage mode focus =
     Array_sort (\<lambda>a b. score b - score a)
       (map (scored mode usage) (first_occurrences request_pair (requests c ks segs focus)))"
  by (simp add: candidates_requests fold_apply_request)

lemma set_first_occurrences: "set (first_occurrences f xs) \<subseteq> set xs"
proof (induction f xs rule: first_occurrences.induct)
  case (1 f)
  then show ?case by simp
next
  case (2 f x xs)
  then show ?case by auto
qed

lemma distinct_first_occurrences: "distinct (map f (first_occurrences f xs))"
proof (induction f xs rule: first_occurrences.induct)
  case (1 f)
  then show ?case by simp
next
  case (2 f x xs)
  have "f x \<notin> f ` set (first_occurrences f (filter (\<lambda>y. f y \<noteq> f x) xs))"
    using set_first_occurrences [of f "filter (\<lambda>y. f y \<noteq> f x) xs"] by auto
  with 2 show ?case by simp
qed

lemma distinct_map_insert_sorted:
  "distinct (map f (insert_sorted cmp x xs)) = (f x \<notin> f ` set xs \<and> distinct (map f xs))"
  by (induction xs) (auto simp: set_insert_sorted)

lemma distinct_map_Array_sort: "distinct (map f (Array_sort cmp xs)) = distinct (map f xs)"
proof (induction xs)
  case Nil
  then show ?case by (simp add: Array_sort_def)
next
  case (Cons x xs)
  have "Array_sort cmp (x # xs) = insert_sorted cmp x (Array_sort cmp xs)"
    by (simp add: Array_sort_def)
  with Cons show ?case
    by (simp add: distinct_map_insert_sorted set_Array_sort)
qed

lemma pair_scored: "(value (scored mode usage r), consumedLen (scored mode usage r)) = request_pair r"
  by (cases r) (simp add: scored_def request_pair_def)

text \<open>
  C4 (as amended). For every buffer, list of segmentations, focus, mode and usage
  history, the list that \<open>candidates\<close> returns is sorted by score in descending order
  with ties allowed (no candidate is followed by one of a higher score), and it holds at
  most one candidate per pair of value and consumed length. It is the sorted list of the
  calls of \<open>addResult\<close> that are the first with their pair, each scored from its own
  arguments alone: a later call with the same pair is dropped, neither merged nor added
  to the score.
\<close>

theorem candidates_sorted_and_deduplicated:
  "sorted_wrt (\<lambda>a b. score a \<ge> score b) (candidates c ks segs usage mode focus) \<and>
   distinct (map (\<lambda>a. (value a, consumedLen a)) (candidates c ks segs usage mode focus)) \<and>
   candidates c ks segs usage mode focus =
     Array_sort (\<lambda>a b. score b - score a)
       (map (scored mode usage) (first_occurrences request_pair (requests c ks segs focus)))"
proof (intro conjI)
  let ?cmp = "\<lambda>a b :: Candidate. score b - score a"
  have "sorted_wrt (\<lambda>a b. ?cmp a b \<le> 0) (Array_sort ?cmp xs)" for xs
    by (rule sorted_Array_sort) auto
  then show "sorted_wrt (\<lambda>a b. score a \<ge> score b) (candidates c ks segs usage mode focus)"
    by (simp add: candidates_first_occurrences)
  have "map (\<lambda>a. (value a, consumedLen a)) (map (scored mode usage) rs) = map request_pair rs" for rs
    by (simp add: pair_scored)
  then show "distinct (map (\<lambda>a. (value a, consumedLen a)) (candidates c ks segs usage mode focus))"
    by (simp only: candidates_first_occurrences distinct_map_Array_sort distinct_first_occurrences)
  show "candidates c ks segs usage mode focus =
     Array_sort (\<lambda>a b. score b - score a)
       (map (scored mode usage) (first_occurrences request_pair (requests c ks segs focus)))"
    by (rule candidates_first_occurrences)
qed

lemma demo_requests:
  "requests demo_constants purui_keys (segmentations ascii_toLowerCase demo_constants purui_keys) None =
     [([0x666E, 0x745E], [0x666E, 0x745E], 150, 5, TPhrase, 0),
      ([0x666E], [0x666E], 50, 2, TChar, 0),
      ([0x94FA], [0x94FA], 50, 2, TChar, 1 / 2),
      ([0x76AE], [0x76AE], 50, 2, TChar, 0)]"
proof -
  have k: "length purui_keys \<noteq> 0" by (simp add: purui_keys_def)
  show ?thesis
    unfolding demo_segmentations requests_def
    using k
    by (simp add: path_requests_def phrase_requests_def phrase_requests_at_def join_pinyin_def
          hanzi_requests_def demo_constants_def ascii_def upt_conv_Cons)
qed

lemma demo_first_occurrences:
  "first_occurrences request_pair
     [([0x666E, 0x745E], [0x666E, 0x745E], 150, 5, TPhrase, 0),
      ([0x666E], [0x666E], 50, 2, TChar, 0),
      ([0x94FA], [0x94FA], 50, 2, TChar, 1 / 2),
      ([0x76AE], [0x76AE], 50, 2, TChar, 0 :: rat)] =
     [([0x666E, 0x745E], [0x666E, 0x745E], 150, 5, TPhrase, 0),
      ([0x666E], [0x666E], 50, 2, TChar, 0),
      ([0x94FA], [0x94FA], 50, 2, TChar, 1 / 2),
      ([0x76AE], [0x76AE], 50, 2, TChar, 0)]"
  by (simp add: request_pair_def)

lemma demo_candidates_word:
  "candidates demo_constants purui_keys (segmentations ascii_toLowerCase demo_constants purui_keys)
     Map.empty ModeWord None =
     [\<lparr>display = [0x666E, 0x745E], value = [0x666E, 0x745E], score = 210, consumedLen = 5,
        type = TPhrase\<rparr>,
      \<lparr>display = [0x666E], value = [0x666E], score = 55, consumedLen = 2, type = TChar\<rparr>,
      \<lparr>display = [0x76AE], value = [0x76AE], score = 55, consumedLen = 2, type = TChar\<rparr>,
      \<lparr>display = [0x94FA], value = [0x94FA], score = 109 / 2, consumedLen = 2, type = TChar\<rparr>]"
  unfolding candidates_first_occurrences demo_requests demo_first_occurrences
  by (simp add: scored_def Array_sort_def)

lemma demo_candidates_char:
  "candidates demo_constants purui_keys (segmentations ascii_toLowerCase demo_constants purui_keys)
     Map.empty ModeChar None =
     [\<lparr>display = [0x666E], value = [0x666E], score = 255, consumedLen = 2, type = TChar\<rparr>,
      \<lparr>display = [0x76AE], value = [0x76AE], score = 255, consumedLen = 2, type = TChar\<rparr>,
      \<lparr>display = [0x94FA], value = [0x94FA], score = 509 / 2, consumedLen = 2, type = TChar\<rparr>,
      \<lparr>display = [0x666E, 0x745E], value = [0x666E, 0x745E], score = 160, consumedLen = 5,
        type = TPhrase\<rparr>]"
  unfolding candidates_first_occurrences demo_requests demo_first_occurrences
  by (simp add: scored_def Array_sort_def)

text \<open>
  C4 (as stated) fails: the order is not strict. The two readings pu and pi of the same
  keys give two characters of the same score 55, next to each other in the list.
\<close>

theorem candidates_tie_not_strictly_descending:
  "\<not> sorted_wrt (\<lambda>a b. score a > score b)
        (candidates demo_constants purui_keys (segmentations ascii_toLowerCase demo_constants purui_keys)
           Map.empty ModeWord None)"
  unfolding demo_candidates_word by simp

lemma Array_sort_single: "Array_sort cmp [x] = [x]"
  by (simp add: Array_sort_def)

lemma raw_segmentations: "segmentations ascii_toLowerCase demo_constants raw_keys = []"
proof -
  have "raw_keys \<noteq> []" by (simp add: raw_keys_def)
  then have "segmentations ascii_toLowerCase demo_constants raw_keys =
      decompositions_from ascii_toLowerCase (VALID_PINYINS demo_constants) raw_keys 0"
    by (rule segmentations_eq)
  also have "\<dots> = []"
    by (simp add: decompositions_from.simps demo_constants_def raw_keys_def letter_key_def
          ascii_def slice_def relative_index_def matchesGroups_def matchesGroups_loop.simps
          ascii_toLowerCase_def upt_conv_Cons)
  finally show ?thesis .
qed

lemma first_occurrences_representative:
  "x \<in> set xs \<Longrightarrow> \<exists>y \<in> set (first_occurrences f xs). f y = f x"
proof (induction f xs rule: first_occurrences.induct)
  case (1 f)
  then show ?case by simp
next
  case (2 f z zs)
  show ?case
  proof (cases "f x = f z")
    case True
    then show ?thesis by auto
  next
    case False
    with "2.prems" have "x \<in> set (filter (\<lambda>y. f y \<noteq> f z) zs)" by auto
    from "2.IH" [OF this] show ?thesis by auto
  qed
qed

lemma set_candidates:
  "set (candidates c ks segs usage mode focus) =
     scored mode usage ` set (first_occurrences request_pair (requests c ks segs focus))"
  by (simp add: candidates_first_occurrences set_Array_sort)

lemma hanzi_requests_cases:
  "r \<in> set (hanzi_requests b n p hs) \<Longrightarrow>
     \<exists>h idx. r = (h, h, b, n, TChar, of_nat idx * p) \<and> h \<in> set hs"
  by (auto simp: hanzi_requests_def in_set_enumerate_eq)

lemma first_char_or_cases:
  "first_char_or dflt k =
     (case chars k of None \<Rightarrow> dflt | Some [] \<Rightarrow> dflt
      | Some (x # xs) \<Rightarrow> if x = [] then dflt else x)"
  by (simp add: first_char_or_def)

text \<open>
  C5 (as amended). For every non-empty buffer for which \<open>segmentations\<close> returns no
  decomposition, \<open>candidates\<close> without a focus returns exactly one candidate, the raw
  fallback. Its value is the concatenation, over the key groups of the buffer, of the
  first listed letter of the group, or of a question mark for a group that has no
  \<open>chars\<close> array, an empty one or an empty first entry. Its base score is 0, so that
  its score is five times the length of the value plus ten times the recorded uses of
  the value; its consumed length is the length of the buffer and its kind is raw.
\<close>

theorem raw_fallback_candidate:
  assumes "ks \<noteq> []" and "segmentations toLowerCase c ks = []"
  shows "candidates c ks (segmentations toLowerCase c ks) usage mode None =
     (let raw = concat (map (\<lambda>k. case chars k of
                                     None \<Rightarrow> ascii ''?''
                                   | Some [] \<Rightarrow> ascii ''?''
                                   | Some (x # xs) \<Rightarrow> if x = [] then ascii ''?'' else x) ks)
      in [\<lparr>display = raw, value = raw,
            score = 0 + of_nat (length raw) * 5
                      + of_nat (case usage raw of Some n \<Rightarrow> n | None \<Rightarrow> 0) * 10,
            consumedLen = length ks, type = TRaw\<rparr>])"
proof -
  have "first_char_or (ascii ''?'') =
      (\<lambda>k. case chars k of None \<Rightarrow> ascii ''?'' | Some [] \<Rightarrow> ascii ''?''
                | Some (x # xs) \<Rightarrow> if x = [] then ascii ''?'' else x)"
    by (rule ext) (rule first_char_or_cases)
  with assms show ?thesis
    by (simp add: candidates_def addResult_def Let_def Array_sort_single)
qed

theorem raw_fallback_candidate_witness:
  "raw_keys \<noteq> [] \<and> segmentations ascii_toLowerCase demo_constants raw_keys = [] \<and>
   candidates demo_constants raw_keys (segmentations ascii_toLowerCase demo_constants raw_keys)
     Map.empty ModeWord None =
     [\<lparr>display = [97, 122], value = [97, 122], score = 10, consumedLen = 2, type = TRaw\<rparr>]"
proof -
  have k: "raw_keys \<noteq> []" by (simp add: raw_keys_def)
  have r: "concat (map (\<lambda>k. case chars k of
                                     None \<Rightarrow> ascii ''?''
                                   | Some [] \<Rightarrow> ascii ''?''
                                   | Some (x # xs) \<Rightarrow> if x = [] then ascii ''?'' else x) raw_keys)
           = [97, 122]"
    by (simp add: raw_keys_def letter_key_def ascii_def)
  have l: "length raw_keys = 2" by (simp add: raw_keys_def)
  from raw_fallback_candidate [OF k raw_segmentations, of Map.empty ModeWord]
  show ?thesis
    unfolding r l Let_def using k raw_segmentations by simp
qed

lemma blank_segmentations: "segmentations ascii_toLowerCase demo_constants blank_keys = []"
proof -
  have "blank_keys \<noteq> []" by (simp add: blank_keys_def)
  then have "segmentations ascii_toLowerCase demo_constants blank_keys =
      decompositions_from ascii_toLowerCase (VALID_PINYINS demo_constants) blank_keys 0"
    by (rule segmentations_eq)
  also have "\<dots> = []"
    by (simp add: decompositions_from.simps demo_constants_def blank_keys_def letter_key_def
          ascii_def slice_def relative_index_def matchesGroups_def matchesGroups_loop.simps
          ascii_toLowerCase_def upt_conv_Cons)
  finally show ?thesis .
qed

text \<open>
  C5 (as stated) fails. A key group with an empty \<open>chars\<close> array is appended to the
  buffer by a tap; the buffer of that group and the group asdfg has no decomposition,
  and the value of the only candidate is \<open>?a\<close> (63, 97), not the concatenation \<open>a\<close> of
  the first listed letters.
\<close>

theorem raw_fallback_question_mark:
  "pinyinKeys (run ascii_toLowerCase demo_constants (map Tap blank_keys)) = blank_keys \<and>
   segmentations ascii_toLowerCase demo_constants blank_keys = [] \<and>
   map value (candidates demo_constants blank_keys
                (segmentations ascii_toLowerCase demo_constants blank_keys)
                Map.empty ModeWord None) = [[63, 97]] \<and>
   concat (map (\<lambda>k. case chars k of Some (x # xs) \<Rightarrow> x | _ \<Rightarrow> []) blank_keys) = [97]"
proof (intro conjI)
  show "pinyinKeys (run ascii_toLowerCase demo_constants (map Tap blank_keys)) = blank_keys"
    by (simp add: run_def blank_keys_def handleTap_def letter_key_def setPinyinKeys_def
          initial_def)
  show "segmentations ascii_toLowerCase demo_constants blank_keys = []"
    by (rule blank_segmentations)
  have "length blank_keys \<noteq> 0" by (simp add: blank_keys_def)
  then have "candidates demo_constants blank_keys [] Map.empty ModeWord None =
      snd (addResult ModeWord Map.empty
             (concat (map (first_char_or (ascii ''?'')) blank_keys))
             (concat (map (first_char_or (ascii ''?'')) blank_keys)) 0 (length blank_keys) TRaw 0
             ({}, []))"
    by (simp add: candidates_def Let_def addResult_def Array_sort_single)
  moreover have "concat (map (first_char_or (ascii ''?'')) blank_keys) = [63, 97]"
    by (simp add: blank_keys_def letter_key_def first_char_or_def ascii_def)
  ultimately show "map value (candidates demo_constants blank_keys
                (segmentations ascii_toLowerCase demo_constants blank_keys)
                Map.empty ModeWord None) = [[63, 97]]"
    unfolding blank_segmentations by (simp add: addResult_def Let_def)
  show "concat (map (\<lambda>k. case chars k of Some (x # xs) \<Rightarrow> x | _ \<Rightarrow> []) blank_keys) = [97]"
    by (simp add: blank_keys_def letter_key_def)
qed

lemma phrase_requests_cases:
  assumes "r \<in> set (phrase_requests c segPath)"
  shows "\<exists>k ps idx n. COMMON_PHRASES c k = Some ps \<and> idx < length ps \<and>
           r = (ps ! idx, ps ! idx, 150, n, TPhrase, of_nat idx * (1 / 10))"
proof -
  from assms obtain i where ri: "r \<in> set (phrase_requests_at c segPath i)"
    by (auto simp: phrase_requests_def)
  show ?thesis
  proof (cases "COMMON_PHRASES c (join_pinyin (take (Suc i) segPath))")
    case None
    with ri show ?thesis by (simp add: phrase_requests_at_def)
  next
    case (Some ps)
    let ?n = "sum_list (map len (take (Suc i) segPath))"
    let ?f = "\<lambda>(idx, phrase). (phrase, phrase, 150 :: rat, ?n, TPhrase,
                                 rat_of_nat idx * (1 / 10))"
    from ri Some have "r \<in> ?f ` set (enumerate 0 ps)"
      unfolding phrase_requests_at_def by (simp only: option.case set_map)
    then obtain e where e: "e \<in> set (enumerate 0 ps)" and r: "r = ?f e" by blast
    obtain idx p where ep: "e = (idx, p)" by (cases e)
    from e ep have "idx < length ps" and "ps ! idx = p"
      by (simp_all add: in_set_enumerate_eq)
    moreover from r ep have "r = (p, p, 150, ?n, TPhrase, rat_of_nat idx * (1 / 10))"
      by (simp only: prod.case)
    ultimately show ?thesis using Some by blast
  qed
qed

lemma default_requests_cases:
  assumes segs: "segs \<noteq> []"
    and r: "r \<in> set (requests c ks segs None)"
  shows "(\<exists>k ps idx n. COMMON_PHRASES c k = Some ps \<and> idx < length ps \<and>
            r = (ps ! idx, ps ! idx, 150, n, TPhrase, of_nat idx * (1 / 10))) \<or>
         (\<exists>h n idx s hs. r = (h, h, 50, n, TChar, of_nat idx * (1 / 2)) \<and>
            PINYIN_TO_HANZI c s = Some hs \<and> h \<in> set hs)"
proof -
  from r segs obtain p where p: "p \<in> set segs" and rp: "r \<in> set (path_requests c p)"
    by (auto simp: requests_def split: if_splits)
  from rp have "r \<in> set (phrase_requests c p) \<or>
      (\<exists>hs. PINYIN_TO_HANZI c (str (p ! 0)) = Some hs \<and>
            r \<in> set (hanzi_requests 50 (len (p ! 0)) (1 / 2) hs))"
    by (auto simp: path_requests_def split: if_splits option.splits)
  then show ?thesis
  proof
    assume "r \<in> set (phrase_requests c p)"
    from phrase_requests_cases [OF this] show ?thesis by (rule disjI1)
  next
    assume "\<exists>hs. PINYIN_TO_HANZI c (str (p ! 0)) = Some hs \<and>
            r \<in> set (hanzi_requests 50 (len (p ! 0)) (1 / 2) hs)"
    then obtain hs where hs: "PINYIN_TO_HANZI c (str (p ! 0)) = Some hs"
      and rh: "r \<in> set (hanzi_requests 50 (len (p ! 0)) (1 / 2) hs)" by blast
    from hanzi_requests_cases [OF rh] obtain h idx
      where "r = (h, h, 50, len (p ! 0), TChar, of_nat idx * (1 / 2))" and "h \<in> set hs" by blast
    with hs show ?thesis by blast
  qed
qed

lemma purui_phrase_request:
  assumes table: "COMMON_PHRASES c (ascii ''pu'rui'') = Some phrases"
    and ph: "ph \<in> set phrases"
    and path: "[\<lparr>str = ascii ''pu'', len = 2\<rparr>, \<lparr>str = ascii ''rui'', len = 3\<rparr>] \<in> set segs"
    and ks: "ks \<noteq> []"
  shows "\<exists>idx. (ph, ph, 150, 5, TPhrase, of_nat idx * (1 / 10)) \<in> set (requests c ks segs None)"
proof -
  let ?p = "[\<lparr>str = ascii ''pu'', len = 2\<rparr>, \<lparr>str = ascii ''rui'', len = 3\<rparr>]"
  from ph obtain idx where idx: "idx < length phrases" and pi: "phrases ! idx = ph"
    by (auto simp: in_set_conv_nth)
  let ?r = "(ph, ph, 150, 5, TPhrase, of_nat idx * (1 / 10)) :: request"
  have j: "join_pinyin (take (Suc 1) ?p) = ascii ''pu'rui''"
    by (simp add: join_pinyin_def ascii_def)
  have "(idx, ph) \<in> set (enumerate 0 phrases)"
    using idx pi by (simp add: in_set_enumerate_eq)
  then have "(\<lambda>(idx, phrase). (phrase, phrase, 150, 5, TPhrase, of_nat idx * (1 / 10))) (idx, ph)
       \<in> set (map (\<lambda>(idx, phrase). (phrase, phrase, 150, 5, TPhrase, rat_of_nat idx * (1 / 10)))
               (enumerate 0 phrases))"
    unfolding set_map by (rule imageI)
  then have e: "?r \<in> set (phrase_requests_at c ?p 1)"
    unfolding phrase_requests_at_def j table by simp
  have m: "(1::nat) \<in> set [0 ..< min (length ?p) 4]" by simp
  have "?r \<in> set (phrase_requests c ?p)"
    unfolding phrase_requests_def using m e by (rule in_concat_mapI)
  then have "?r \<in> set (path_requests c ?p)"
    by (simp add: path_requests_def)
  with path have "?r \<in> set (concat (map (path_requests c) segs))"
    by (rule in_concat_mapI)
  moreover from path have "segs \<noteq> []" by auto
  ultimately have "?r \<in> set (requests c ks segs None)" using ks by (simp add: requests_def)
  then show ?thesis by blast
qed

lemma phrase_outranks_general:
  fixes ph :: jsstring
  assumes path: "[\<lparr>str = ascii ''pu'', len = 2\<rparr>, \<lparr>str = ascii ''rui'', len = 3\<rparr>]
                   \<in> set (segmentations toLowerCase c ks)"
    and table: "COMMON_PHRASES c (ascii ''pu'rui'') = Some phrases"
    and listed: "ph \<in> set phrases"
    and nochar: "\<forall>s hs. PINYIN_TO_HANZI c s = Some hs \<longrightarrow> ph \<notin> set hs"
    and len2: "length ph = 2"
  shows "\<exists>a \<in> set (candidates c ks (segmentations toLowerCase c ks) usage mode None).
           value a = ph \<and> consumedLen a = 5 \<and> type a = TPhrase \<and>
           (mode = ModeWord \<longrightarrow>
            (\<forall>b \<in> set (candidates c ks (segmentations toLowerCase c ks) usage mode None).
               type b = TChar \<and> length (value b) = 1 \<and>
               (\<forall>k ps idx. COMMON_PHRASES c k = Some ps \<and> idx < length ps \<and> ps ! idx = ph \<longrightarrow>
                  of_nat (case usage (value b) of Some n \<Rightarrow> n | None \<Rightarrow> 0) * 10 + of_nat idx / 10
                    < (155 :: rat) + of_nat (case usage ph of Some n \<Rightarrow> n | None \<Rightarrow> 0) * 10)
               \<longrightarrow> score b < score a))"
proof -
  define reqs where "reqs = requests c ks (segmentations toLowerCase c ks) None"
  define cands where "cands = candidates c ks (segmentations toLowerCase c ks) usage mode None"
  define u where "u = (\<lambda>v. case usage v of Some n \<Rightarrow> n | None \<Rightarrow> (0::nat))"
  have set_cands: "set cands = scored mode usage ` set (first_occurrences request_pair reqs)"
    unfolding cands_def reqs_def by (rule set_candidates)
  from path have ks: "ks \<noteq> []" by (auto simp: segmentations_def)
  from path have segs: "segmentations toLowerCase c ks \<noteq> []" by auto
  have cases: "(\<exists>k ps idx n. COMMON_PHRASES c k = Some ps \<and> idx < length ps \<and>
            r = (ps ! idx, ps ! idx, 150, n, TPhrase, of_nat idx * (1 / 10))) \<or>
         (\<exists>h n idx s hs. r = (h, h, 50, n, TChar, of_nat idx * (1 / 2)) \<and>
            PINYIN_TO_HANZI c s = Some hs \<and> h \<in> set hs)"
    if "r \<in> set reqs" for r
    using that unfolding reqs_def by (rule default_requests_cases [OF segs])
  from purui_phrase_request [OF table listed path ks]
  obtain idx0 where rq: "(ph, ph, 150, 5, TPhrase, of_nat idx0 * (1 / 10)) \<in> set reqs"
    unfolding reqs_def by blast
  from first_occurrences_representative [OF rq, of request_pair]
  obtain y where y: "y \<in> set (first_occurrences request_pair reqs)"
    and py: "request_pair y = (ph, 5)" by (auto simp: request_pair_def)
  from y have "y \<in> set reqs" by (rule subsetD [OF set_first_occurrences])
  from cases [OF this]
  obtain k ps idx where kps: "COMMON_PHRASES c k = Some ps" and idx: "idx < length ps"
    and pidx: "ps ! idx = ph" and yeq: "y = (ph, ph, 150, 5, TPhrase, of_nat idx * (1 / 10))"
  proof
    assume "\<exists>k ps idx n. COMMON_PHRASES c k = Some ps \<and> idx < length ps \<and>
            y = (ps ! idx, ps ! idx, 150, n, TPhrase, of_nat idx * (1 / 10))"
    then obtain k ps idx n where a: "COMMON_PHRASES c k = Some ps" "idx < length ps"
      and b: "y = (ps ! idx, ps ! idx, 150, n, TPhrase, of_nat idx * (1 / 10))" by blast
    from b py have "ps ! idx = ph" "n = 5" by (simp_all add: request_pair_def)
    with a b that show ?thesis by blast
  next
    assume "\<exists>h n idx s hs. y = (h, h, 50, n, TChar, of_nat idx * (1 / 2)) \<and>
            PINYIN_TO_HANZI c s = Some hs \<and> h \<in> set hs"
    then obtain h n idx s hs where "y = (h, h, 50, n, TChar, of_nat idx * (1 / 2))"
      and "PINYIN_TO_HANZI c s = Some hs" and "h \<in> set hs"
      by blast
    with py have "PINYIN_TO_HANZI c s = Some hs" and "ph \<in> set hs"
      by (simp_all add: request_pair_def)
    with nochar show ?thesis by blast
  qed
  define a where "a = scored mode usage y"
  from y have a_in: "a \<in> set cands" by (simp add: set_cands a_def)
  have a_fields: "value a = ph \<and> consumedLen a = 5 \<and> type a = TPhrase"
    by (simp add: a_def yeq scored_def)
  have lower: "score b < score a"
    if word: "mode = ModeWord"
      and b: "b \<in> set cands" and t: "type b = TChar" and l: "length (value b) = 1"
      and margin: "\<forall>k ps idx. COMMON_PHRASES c k = Some ps \<and> idx < length ps \<and> ps ! idx = ph \<longrightarrow>
               of_nat (u (value b)) * 10 + of_nat idx / 10 < (155 :: rat) + of_nat (u ph) * 10"
    for b
  proof -
    have sa: "score a = 210 + of_nat (u ph) * 10 - of_nat idx / 10"
      by (simp add: a_def yeq scored_def word u_def len2)
    from b obtain r where r: "r \<in> set (first_occurrences request_pair reqs)"
      and br: "b = scored mode usage r" by (auto simp: set_cands)
    from r have "r \<in> set reqs" by (rule subsetD [OF set_first_occurrences])
    from cases [OF this] obtain h n i
      where rh: "r = (h, h, 50, n, TChar, of_nat i * (1 / 2))"
      using br t by (auto simp: scored_def)
    from br rh have vb: "value b = h" by (simp add: scored_def)
    with l have h: "length h = 1" by simp
    have "score b = 55 + of_nat (u h) * 10 - of_nat i * (1 / 2)"
      by (simp add: br rh scored_def h u_def word)
    also have "\<dots> \<le> 55 + of_nat (u h) * 10" by simp
    also have "\<dots> < 210 + of_nat (u ph) * 10 - of_nat idx / 10"
      using margin kps idx pidx unfolding vb by (fastforce simp: algebra_simps)
    finally show ?thesis by (simp only: sa)
  qed
  from a_in a_fields lower show ?thesis
    unfolding cands_def u_def by blast
qed

text \<open>
  C7 (as amended). Let the key groups segment as the two syllables pu and rui, let the
  phrase table list the phrase 0x666E 0x745E under the key \<open>pu'rui\<close>, and let the
  character table not list that phrase as a character. Then, in either mode and with any
  usage history, the list of \<open>candidates\<close> without a focus contains the phrase as a
  phrase candidate with consumed length 5, the number of key groups of the two syllables.
  In word mode its score is strictly higher than the score of every single-character
  candidate whose value has not been used so much more often than the phrase that the
  bonus of ten points per use outweighs the 155 points between them: ten times the uses
  of the character, plus a tenth of any position at which a phrase list holds the
  phrase, is below 155 plus ten times the uses of the phrase.
\<close>

theorem phrase_outranks_characters:
  assumes path: "[\<lparr>str = ascii ''pu'', len = 2\<rparr>, \<lparr>str = ascii ''rui'', len = 3\<rparr>]
                   \<in> set (segmentations toLowerCase c ks)"
    and table: "COMMON_PHRASES c (ascii ''pu'rui'') = Some phrases"
    and listed: "[0x666E, 0x745E] \<in> set phrases"
    and nochar: "\<forall>s hs. PINYIN_TO_HANZI c s = Some hs \<longrightarrow> [0x666E, 0x745E] \<notin> set hs"
  shows "\<exists>a \<in> set (candidates c ks (segmentations toLowerCase c ks) usage mode None).
           value a = [0x666E, 0x745E] \<and> consumedLen a = 5 \<and> type a = TPhrase \<and>
           (mode = ModeWord \<longrightarrow>
            (\<forall>b \<in> set (candidates c ks (segmentations toLowerCase c ks) usage mode None).
               type b = TChar \<and> length (value b) = 1 \<and>
               (\<forall>k ps idx. COMMON_PHRASES c k = Some ps \<and> idx < length ps \<and>
                            ps ! idx = [0x666E, 0x745E] \<longrightarrow>
                  of_nat (case usage (value b) of Some n \<Rightarrow> n | None \<Rightarrow> 0) * 10 + of_nat idx / 10
                    < (155 :: rat)
                      + of_nat (case usage [0x666E, 0x745E] of Some n \<Rightarrow> n | None \<Rightarrow> 0) * 10)
               \<longrightarrow> score b < score a))"
proof -
  have "length [0x666E, 0x745E :: nat] = 2" by simp
  from phrase_outranks_general [OF path table listed nochar this] show ?thesis .
qed

theorem phrase_outranks_characters_witness:
  "[\<lparr>str = ascii ''pu'', len = 2\<rparr>, \<lparr>str = ascii ''rui'', len = 3\<rparr>]
     \<in> set (segmentations ascii_toLowerCase demo_constants purui_keys) \<and>
   COMMON_PHRASES demo_constants (ascii ''pu'rui'') = Some [[0x666E, 0x745E]] \<and>
   (\<exists>a \<in> set (candidates demo_constants purui_keys
                  (segmentations ascii_toLowerCase demo_constants purui_keys)
                  Map.empty ModeWord None).
      value a = [0x666E, 0x745E] \<and> consumedLen a = 5 \<and> type a = TPhrase \<and>
      (\<forall>b \<in> set (candidates demo_constants purui_keys
                      (segmentations ascii_toLowerCase demo_constants purui_keys)
                      Map.empty ModeWord None).
         type b = TChar \<and> length (value b) = 1 \<longrightarrow> score b < score a)) \<and>
   (\<exists>a \<in> set (candidates demo_constants purui_keys
                  (segmentations ascii_toLowerCase demo_constants purui_keys)
                  Map.empty ModeChar None).
      value a = [0x666E, 0x745E] \<and> consumedLen a = 5 \<and> type a = TPhrase)"
proof -
  have path: "[\<lparr>str = ascii ''pu'', len = 2\<rparr>, \<lparr>str = ascii ''rui'', len = 3\<rparr>]
     \<in> set (segmentations ascii_toLowerCase demo_constants purui_keys)"
    unfolding demo_segmentations by (rule list.set_intros)
  have table: "COMMON_PHRASES demo_constants (ascii ''pu'rui'') = Some [[0x666E, 0x745E]]"
    by (simp add: demo_constants_def)
  have listed: "[0x666E, 0x745E] \<in> set [[0x666E, 0x745E :: nat]]" by simp
  have nochar: "\<forall>s hs. PINYIN_TO_HANZI demo_constants s = Some hs \<longrightarrow>
                  [0x666E, 0x745E] \<notin> set hs"
    by (auto simp: demo_constants_def split: if_splits)
  have margin: "\<forall>k ps idx. COMMON_PHRASES demo_constants k = Some ps \<and> idx < length ps \<and>
                         ps ! idx = [0x666E, 0x745E] \<longrightarrow>
               of_nat (case Map.empty v of Some n \<Rightarrow> n | None \<Rightarrow> 0) * 10 + of_nat idx / 10
                 < (155 :: rat)
                   + of_nat (case Map.empty [0x666E, 0x745E :: nat] of Some n \<Rightarrow> n | None \<Rightarrow> 0) * 10"
    for v :: jsstring
    by (auto simp: demo_constants_def split: if_splits)
  from phrase_outranks_characters [OF path table listed nochar, of Map.empty ModeWord] margin
  have word: "\<exists>a \<in> set (candidates demo_constants purui_keys
                  (segmentations ascii_toLowerCase demo_constants purui_keys)
                  Map.empty ModeWord None).
      value a = [0x666E, 0x745E] \<and> consumedLen a = 5 \<and> type a = TPhrase \<and>
      (\<forall>b \<in> set (candidates demo_constants purui_keys
                      (segmentations ascii_toLowerCase demo_constants purui_keys)
                      Map.empty ModeWord None).
         type b = TChar \<and> length (value b) = 1 \<longrightarrow> score b < score a)"
    by blast
  from phrase_outranks_characters [OF path table listed nochar, of Map.empty ModeChar]
  have char: "\<exists>a \<in> set (candidates demo_constants purui_keys
                  (segmentations ascii_toLowerCase demo_constants purui_keys)
                  Map.empty ModeChar None).
      value a = [0x666E, 0x745E] \<and> consumedLen a = 5 \<and> type a = TPhrase"
    by blast
  from path table word char show ?thesis by (intro conjI)
qed

lemma demo_candidates_used:
  "candidates demo_constants purui_keys (segmentations ascii_toLowerCase demo_constants purui_keys)
     [[0x666E] \<mapsto> 16] ModeWord None =
     [\<lparr>display = [0x666E], value = [0x666E], score = 215, consumedLen = 2, type = TChar\<rparr>,
      \<lparr>display = [0x666E, 0x745E], value = [0x666E, 0x745E], score = 210, consumedLen = 5,
        type = TPhrase\<rparr>,
      \<lparr>display = [0x76AE], value = [0x76AE], score = 55, consumedLen = 2, type = TChar\<rparr>,
      \<lparr>display = [0x94FA], value = [0x94FA], score = 109 / 2, consumedLen = 2, type = TChar\<rparr>]"
  unfolding candidates_first_occurrences demo_requests demo_first_occurrences
  by (simp add: scored_def Array_sort_def)

text \<open>
  C7 (as stated) fails. The buffer of five key groups segments as pu, rui and the phrase
  table maps \<open>pu'rui\<close> to the phrase, but no candidate has the phrase with consumed
  length 2: the consumed length counts key groups, not syllables. In character mode the
  phrase (score 160) ranks below every character (scores 255 and 254.5), and in word mode
  it ranks (score 210) below a character that has been selected sixteen times (score
  215).
\<close>

theorem purui_phrase_consumes_five_keys:
  "[\<lparr>str = ascii ''pu'', len = 2\<rparr>, \<lparr>str = ascii ''rui'', len = 3\<rparr>]
     \<in> set (segmentations ascii_toLowerCase demo_constants purui_keys) \<and>
   COMMON_PHRASES demo_constants (ascii ''pu'rui'') = Some [[0x666E, 0x745E]] \<and>
   ([0x666E, 0x745E], 2) \<notin>
     set (map (\<lambda>a. (value a, consumedLen a))
            (candidates demo_constants purui_keys (segmentations ascii_toLowerCase demo_constants purui_keys)
               Map.empty ModeWord None)) \<and>
   map (\<lambda>a. (value a, consumedLen a, score a))
     (candidates demo_constants purui_keys (segmentations ascii_toLowerCase demo_constants purui_keys)
        Map.empty ModeChar None) =
     [([0x666E], 2, 255), ([0x76AE], 2, 255), ([0x94FA], 2, 509 / 2),
      ([0x666E, 0x745E], 5, 160)] \<and>
   map (\<lambda>a. (value a, consumedLen a, score a))
     (candidates demo_constants purui_keys (segmentations ascii_toLowerCase demo_constants purui_keys)
        [[0x666E] \<mapsto> 16] ModeWord None) =
     [([0x666E], 2, 215), ([0x666E, 0x745E], 5, 210), ([0x76AE], 2, 55), ([0x94FA], 2, 109 / 2)]"
proof (intro conjI)
  show "[\<lparr>str = ascii ''pu'', len = 2\<rparr>, \<lparr>str = ascii ''rui'', len = 3\<rparr>]
     \<in> set (segmentations ascii_toLowerCase demo_constants purui_keys)"
    unfolding demo_segmentations by (rule list.set_intros)
  show "COMMON_PHRASES demo_constants (ascii ''pu'rui'') = Some [[0x666E, 0x745E]]"
    by (simp add: demo_constants_def)
  show "([0x666E, 0x745E], 2) \<notin>
     set (map (\<lambda>a. (value a, consumedLen a))
            (candidates demo_constants purui_keys (segmentations ascii_toLowerCase demo_constants purui_keys)
               Map.empty ModeWord None))"
    unfolding demo_candidates_word by simp
  show "map (\<lambda>a. (value a, consumedLen a, score a))
     (candidates demo_constants purui_keys (segmentations ascii_toLowerCase demo_constants purui_keys)
        Map.empty ModeChar None) =
     [([0x666E], 2, 255), ([0x76AE], 2, 255), ([0x94FA], 2, 509 / 2),
      ([0x666E, 0x745E], 5, 160)]"
    unfolding demo_candidates_char by simp
  show "map (\<lambda>a. (value a, consumedLen a, score a))
     (candidates demo_constants purui_keys (segmentations ascii_toLowerCase demo_constants purui_keys)
        [[0x666E] \<mapsto> 16] ModeWord None) =
     [([0x666E], 2, 215), ([0x666E, 0x745E], 5, 210), ([0x76AE], 2, 55), ([0x94FA], 2, 109 / 2)]"
    unfolding demo_candidates_used by simp
qed

section \<open>Properties of the composition state machine\<close>

lemma relative_index_nat: "relative_index l (int n) = min n l"
  by (simp add: relative_index_def)

lemma relative_index_neg: "relative_index l (- int n) = (if n = 0 then 0 else l - n)"
  by (auto simp: relative_index_def max_def nat_diff_distrib)

lemma slice_take: "slice xs 0 (int n) = take n xs"
proof -
  have "relative_index (length xs) 0 = 0" by (simp add: relative_index_def)
  then show ?thesis
    by (cases "n \<le> length xs") (simp_all add: slice_def relative_index_nat min_def)
qed

lemma slice_from_drop: "slice_from xs (int n) = drop n xs"
  by (cases "n \<le> length xs") (simp_all add: slice_from_def relative_index_nat min_def)

lemma slice_strip:
  "slice xs 0 (- int n) = (if n = 0 then [] else take (length xs - n) xs)"
proof -
  have "relative_index (length xs) 0 = 0" by (simp add: relative_index_def)
  then show ?thesis by (simp add: slice_def relative_index_neg)
qed

lemma slice_butlast: "slice xs 0 (- 1) = butlast xs"
  using slice_strip [of xs 1] by (simp add: butlast_conv_take)


lemma typing_purui: "run ascii_toLowerCase demo_constants (map Tap purui_keys) = composing_purui"
  by (simp add: run_def purui_keys_def composing_purui_def handleTap_def letter_key_def
        setPinyinKeys_def initial_def)




lemma invariant_fields:
  "pinyinKeys st' = pinyinKeys st \<Longrightarrow> stagedText st' = stagedText st \<Longrightarrow>
   selectionHistory st' = selectionHistory st \<Longrightarrow>
   composition_invariant st' = composition_invariant st"
  by (simp add: composition_invariant_def)

lemma invariant_empty_history:
  "selectionHistory st = [] \<Longrightarrow> stagedText st = [] \<Longrightarrow> composition_invariant st"
  by (simp add: composition_invariant_def)

lemma invariantI:
  "suffix hs (selectionHistory st) \<Longrightarrow> stagedText st = concat (map text hs) \<Longrightarrow>
   pinyinKeys st \<noteq> [] \<Longrightarrow> composition_invariant st"
  by (auto simp: composition_invariant_def)

lemma invariant_initial: "composition_invariant initial"
  by (simp add: invariant_empty_history initial_def)

lemma invariant_clearComposition: "composition_invariant (clearComposition st)"
  by (simp add: invariant_empty_history clearComposition_def setPinyinKeys_def)

lemma invariant_onKeyPress:
  "composition_invariant (onKeyPress s st) = composition_invariant st"
  by (rule invariant_fields) (simp_all add: onKeyPress_def)

lemma invariant_onDelete: "composition_invariant (onDelete st) = composition_invariant st"
  by (rule invariant_fields) (simp_all add: onDelete_def)

lemma invariant_staged_empty_history:
  "composition_invariant st \<Longrightarrow> selectionHistory st = [] \<Longrightarrow> stagedText st = []"
  by (auto simp: composition_invariant_def)

lemma handleCandidateSelect_keeps:
  "drop (consumedLen candidate) (pinyinKeys st) \<noteq> [] \<Longrightarrow>
   handleCandidateSelect candidate st =
     st\<lparr>usageHistory := (usageHistory st)(value candidate \<mapsto>
            (case usageHistory st (value candidate) of Some n \<Rightarrow> n | None \<Rightarrow> 0) + 1),
        selectionHistory := selectionHistory st @
            [\<lparr>text = value candidate, keys = take (consumedLen candidate) (pinyinKeys st)\<rparr>],
        stagedText := stagedText st @ value candidate,
        pinyinKeys := drop (consumedLen candidate) (pinyinKeys st),
        page := 0, focusedPinyinCandidate := None, isExpanded := True\<rparr>"
  by (simp add: handleCandidateSelect_def Let_def slice_take slice_from_drop setPinyinKeys_def)

lemma handleCandidateSelect_commits:
  "drop (consumedLen candidate) (pinyinKeys st) = [] \<Longrightarrow>
   handleCandidateSelect candidate st =
     clearComposition (onKeyPress (stagedText st @ value candidate)
       (st\<lparr>usageHistory := (usageHistory st)(value candidate \<mapsto>
            (case usageHistory st (value candidate) of Some n \<Rightarrow> n | None \<Rightarrow> 0) + 1)\<rparr>))"
  by (simp add: handleCandidateSelect_def Let_def slice_from_drop)

lemma invariant_handleCandidateSelect:
  assumes "composition_invariant st"
  shows "composition_invariant (handleCandidateSelect candidate st)"
proof (cases "drop (consumedLen candidate) (pinyinKeys st) = []")
  case True
  then show ?thesis
    by (simp add: handleCandidateSelect_commits invariant_clearComposition)
next
  case False
  from assms obtain hs where hs: "suffix hs (selectionHistory st)"
    and st: "stagedText st = concat (map text hs)"
    by (auto simp: composition_invariant_def)
  let ?h = "\<lparr>text = value candidate, keys = take (consumedLen candidate) (pinyinKeys st)\<rparr>"
  have "suffix (hs @ [?h]) (selectionHistory st @ [?h])"
    using hs by (auto simp: suffix_def)
  moreover have "stagedText st @ value candidate = concat (map text (hs @ [?h]))"
    using st by simp
  ultimately show ?thesis
    using False unfolding handleCandidateSelect_keeps [OF False] composition_invariant_def
    by (simp del: map_append) blast
qed

lemma suffix_butlast_both:
  "suffix hs xs \<Longrightarrow> hs \<noteq> [] \<Longrightarrow> suffix (butlast hs) (butlast xs) \<and> last hs = last xs"
  by (auto simp: suffix_def butlast_append)

lemma undo_state:
  "focusedPinyinCandidate st = None \<Longrightarrow> selectionHistory st \<noteq> [] \<Longrightarrow>
   handlePanelDelete st =
     st\<lparr>selectionHistory := butlast (selectionHistory st),
        stagedText := (if text (last (selectionHistory st)) = [] then []
                       else take (length (stagedText st) - length (text (last (selectionHistory st))))
                              (stagedText st)),
        pinyinKeys := keys (last (selectionHistory st)) @ pinyinKeys st,
        page := 0, focusedPinyinCandidate := None\<rparr>"
  by (simp add: handlePanelDelete_def Let_def slice_butlast slice_strip setPinyinKeys_def
        last_conv_nth)

lemma invariant_handlePanelDelete:
  assumes inv: "composition_invariant st"
  shows "composition_invariant (handlePanelDelete st)"
proof (cases "focusedPinyinCandidate st")
  case (Some f)
  then have "handlePanelDelete st = st\<lparr>focusedPinyinCandidate := None\<rparr>"
    by (simp add: handlePanelDelete_def)
  moreover have "composition_invariant (st\<lparr>focusedPinyinCandidate := None\<rparr>) =
      composition_invariant st"
    by (rule invariant_fields) simp_all
  ultimately show ?thesis using inv by simp
next
  case None
  show ?thesis
  proof (cases "selectionHistory st = []")
    case True
    with inv have staged: "stagedText st = []" by (rule invariant_staged_empty_history)
    have "selectionHistory (handlePanelDelete st) = [] \<and> stagedText (handlePanelDelete st) = []"
      using None True staged
      by (simp add: handlePanelDelete_def setPinyinKeys_def onDelete_def)
    then show ?thesis by (simp add: invariant_empty_history)
  next
    case False
    from inv obtain hs where hs: "suffix hs (selectionHistory st)"
      and st: "stagedText st = concat (map text hs)"
      by (auto simp: composition_invariant_def)
    from inv False have k: "pinyinKeys st \<noteq> []" by (simp add: composition_invariant_def)
    let ?l = "last (selectionHistory st)"
    let ?staged = "if text ?l = [] then []
                   else take (length (stagedText st) - length (text ?l)) (stagedText st)"
    have "\<exists>hs'. suffix hs' (butlast (selectionHistory st)) \<and> ?staged = concat (map text hs')"
    proof (cases "hs = [] \<or> text ?l = []")
      case True
      with st have "?staged = []" by auto
      then have "suffix [] (butlast (selectionHistory st)) \<and> ?staged = concat (map text [])"
        by simp
      then show ?thesis by blast
    next
      case ne: False
      then have hne: "hs \<noteq> []" and tne: "text ?l \<noteq> []" by simp_all
      from suffix_butlast_both [OF hs hne]
      have sb: "suffix (butlast hs) (butlast (selectionHistory st))" and l: "last hs = ?l"
        by simp_all
      have "butlast hs @ [last hs] = hs" using hne by (rule append_butlast_last_id)
      then have "butlast hs @ [?l] = hs" by (simp only: l)
      then have "concat (map text hs) = concat (map text (butlast hs @ [?l]))" by simp
      also have "\<dots> = concat (map text (butlast hs)) @ text ?l" by simp
      finally have "stagedText st = concat (map text (butlast hs)) @ text ?l"
        using st by simp
      with tne have "?staged = concat (map text (butlast hs))" by simp
      with sb show ?thesis by blast
    qed
    then obtain hs' where s': "suffix hs' (butlast (selectionHistory st))"
      and t': "?staged = concat (map text hs')" by blast
    show ?thesis
    proof (rule invariantI [of hs'])
      show "suffix hs' (selectionHistory (handlePanelDelete st))"
        using s' by (simp add: undo_state [OF None False])
      show "stagedText (handlePanelDelete st) = concat (map text hs')"
        using t' by (simp add: undo_state [OF None False])
      show "pinyinKeys (handlePanelDelete st) \<noteq> []"
        using k by (simp add: undo_state [OF None False])
    qed
  qed
qed

lemma invariant_handleTap:
  assumes inv: "composition_invariant st"
  shows "composition_invariant (handleTap toLowerCase c data st)"
proof (cases "KeyGroup.type data = Action")
  case True
  consider (backspace) "action data = Some ''backspace''"
    | (space) "action data = Some ''space''"
    | (enter) "action data = Some ''enter''"
    | (other) "action data \<noteq> Some ''backspace''" "action data \<noteq> Some ''space''"
        "action data \<noteq> Some ''enter''"
    by blast
  then show ?thesis
  proof cases
    case backspace
    with True inv show ?thesis
      by (simp add: handleTap_def invariant_handlePanelDelete)
  next
    case space
    have "composition_invariant ((onKeyPress s st)\<lparr>stagedText := []\<rparr>)" for s
    proof -
      have "suffix [] (selectionHistory st) \<and> [] = concat (map text [])" by simp
      then have "\<exists>hs. suffix hs (selectionHistory st) \<and> [] = concat (map text hs)" by blast
      with inv show ?thesis
        by (simp add: composition_invariant_def onKeyPress_def)
    qed
    with True space inv show ?thesis
      by (simp add: handleTap_def invariant_handleCandidateSelect invariant_onKeyPress)
  next
    case enter
    with True inv show ?thesis
      by (simp add: handleTap_def Let_def invariant_clearComposition invariant_onKeyPress)
  next
    case other
    with True inv show ?thesis by (simp add: handleTap_def)
  qed
next
  case False
  have "composition_invariant (setPinyinKeys (pinyinKeys st @ [data]) st)"
    using inv by (simp add: composition_invariant_def setPinyinKeys_def)
  with False inv show ?thesis
    by (simp add: handleTap_def invariant_onKeyPress split: option.split)
qed

lemma invariant_step:
  "composition_invariant st \<Longrightarrow> composition_invariant (step toLowerCase c st ev)"
proof (cases ev)
  case (Tap data)
  assume "composition_invariant st"
  with Tap show ?thesis by (simp add: invariant_handleTap)
next
  case (CandidateSelect candidate)
  assume "composition_invariant st"
  with CandidateSelect show ?thesis by (simp add: invariant_handleCandidateSelect)
next
  case PanelDelete
  assume "composition_invariant st"
  with PanelDelete show ?thesis by (simp add: invariant_handlePanelDelete)
next
  case (LongPressStart data)
  assume "composition_invariant st"
  with LongPressStart show ?thesis
    by (simp add: handleLongPressStart_def invariant_clearComposition)
next
  case (SlideCommit char)
  assume "composition_invariant st"
  with SlideCommit show ?thesis
    by (simp add: handleSlideCommit_def Let_def invariant_onKeyPress invariant_clearComposition)
next
  case (SegmentClick seg)
  assume "composition_invariant st"
  moreover have "composition_invariant (segmentClick seg st) = composition_invariant st"
    by (rule invariant_fields) (simp_all add: segmentClick_def Let_def)
  ultimately show ?thesis using SegmentClick by simp
next
  case ModeToggle
  assume "composition_invariant st"
  moreover have "composition_invariant (step toLowerCase c st ModeToggle) = composition_invariant st"
    by (rule invariant_fields) simp_all
  ultimately show ?thesis using ModeToggle by simp
next
  case (UtilityClick a)
  assume "composition_invariant st"
  with UtilityClick show ?thesis by (simp add: invariant_clearComposition)
qed

lemma invariant_foldl:
  "composition_invariant st \<Longrightarrow> composition_invariant (foldl (step toLowerCase c) st events)"
  by (induction events arbitrary: st) (simp_all add: invariant_step)

lemma invariant_run: "composition_invariant (run toLowerCase c events)"
  by (simp add: run_def invariant_foldl invariant_initial)

text \<open>
  C9. In every state that the events of the component (taps on letter, punctuation and
  action keys, selections, the delete button, long presses, slides, clicks on a syllable,
  the mode toggle and the utility row) reach from the initial state, the staged text is
  non-empty only if the buffer of pending keys is non-empty.
\<close>

theorem staged_text_only_with_pending_keys:
  "stagedText (run toLowerCase c events) \<noteq> [] \<longrightarrow> pinyinKeys (run toLowerCase c events) \<noteq> []"
  using invariant_run [of toLowerCase c events] by (auto simp: composition_invariant_def)

theorem staged_text_only_with_pending_keys_witness:
  "stagedText (run ascii_toLowerCase demo_constants
       (map Tap purui_keys @
        [CandidateSelect \<lparr>display = [0x666E], value = [0x666E], score = 55, consumedLen = 2,
                           type = TChar\<rparr>])) = [0x666E] \<and>
   pinyinKeys (run ascii_toLowerCase demo_constants
       (map Tap purui_keys @
        [CandidateSelect \<lparr>display = [0x666E], value = [0x666E], score = 55, consumedLen = 2,
                           type = TChar\<rparr>])) \<noteq> []"
proof -
  let ?events = "map Tap purui_keys @
        [CandidateSelect \<lparr>display = [0x666E], value = [0x666E], score = 55, consumedLen = 2,
                           type = TChar\<rparr>]"
  have s: "stagedText (run ascii_toLowerCase demo_constants ?events) = [0x666E]"
    unfolding run_def foldl_append typing_purui [unfolded run_def]
    by (simp add: handleCandidateSelect_def Let_def slice_def slice_from_def relative_index_def
          composing_purui_def initial_def purui_keys_def setPinyinKeys_def)
  with staged_text_only_with_pending_keys [of ascii_toLowerCase demo_constants ?events]
  show ?thesis by simp
qed

section \<open>The withdrawal of selections\<close>

lemma handlePanelDelete_focus: "focusedPinyinCandidate (handlePanelDelete st) = None"
  by (simp add: handlePanelDelete_def Let_def setPinyinKeys_def onDelete_def split: option.split)

lemma handleCandidateSelect_focus:
  "focusedPinyinCandidate (handleCandidateSelect candidate st) = None"
  by (simp add: handleCandidateSelect_def Let_def clearComposition_def setPinyinKeys_def
        onKeyPress_def)

lemma undo_one:
  assumes keep: "slice_from (pinyinKeys st) (int (consumedLen candidate)) \<noteq> []"
    and ne: "value candidate \<noteq> []"
    and k: "pinyinKeys st' = pinyinKeys (handleCandidateSelect candidate st)"
    and t: "stagedText st' = stagedText (handleCandidateSelect candidate st)"
    and h: "selectionHistory st' = selectionHistory (handleCandidateSelect candidate st)"
    and f: "focusedPinyinCandidate st' = None"
  shows "pinyinKeys (handlePanelDelete st') = pinyinKeys st \<and>
         stagedText (handlePanelDelete st') = stagedText st \<and>
         selectionHistory (handlePanelDelete st') = selectionHistory st"
proof -
  from keep have d: "drop (consumedLen candidate) (pinyinKeys st) \<noteq> []"
    by (simp add: slice_from_drop)
  have k': "pinyinKeys st' = drop (consumedLen candidate) (pinyinKeys st)"
    and t': "stagedText st' = stagedText st @ value candidate"
    and h': "selectionHistory st' = selectionHistory st @
        [\<lparr>text = value candidate, keys = take (consumedLen candidate) (pinyinKeys st)\<rparr>]"
    using k t h by (simp_all add: handleCandidateSelect_keeps [OF d])
  from h' have hne: "selectionHistory st' \<noteq> []" by simp
  show ?thesis
    using ne by (simp add: undo_state [OF f hne] k' t' h')
qed

lemma undo_law_focus:
  "selections_keep st cs \<Longrightarrow> \<forall>candidate \<in> set cs. value candidate \<noteq> [] \<Longrightarrow>
   focusedPinyinCandidate st = None \<Longrightarrow>
   pinyinKeys ((handlePanelDelete ^^ length cs)
      (foldl (\<lambda>s candidate. handleCandidateSelect candidate s) st cs)) = pinyinKeys st \<and>
   stagedText ((handlePanelDelete ^^ length cs)
      (foldl (\<lambda>s candidate. handleCandidateSelect candidate s) st cs)) = stagedText st \<and>
   selectionHistory ((handlePanelDelete ^^ length cs)
      (foldl (\<lambda>s candidate. handleCandidateSelect candidate s) st cs)) = selectionHistory st \<and>
   focusedPinyinCandidate ((handlePanelDelete ^^ length cs)
      (foldl (\<lambda>s candidate. handleCandidateSelect candidate s) st cs)) = None"
proof (induction cs arbitrary: st)
  case Nil
  then show ?case by simp
next
  case (Cons candidate cs)
  let ?st1 = "handleCandidateSelect candidate st"
  let ?st2 = "(handlePanelDelete ^^ length cs)
      (foldl (\<lambda>s candidate. handleCandidateSelect candidate s) ?st1 cs)"
  from Cons.prems have keep: "slice_from (pinyinKeys st) (int (consumedLen candidate)) \<noteq> []"
    and rest: "selections_keep ?st1 cs" and ne: "value candidate \<noteq> []"
    and nes: "\<forall>candidate \<in> set cs. value candidate \<noteq> []"
    by simp_all
  have "focusedPinyinCandidate ?st1 = None" by (rule handleCandidateSelect_focus)
  from Cons.IH [OF rest nes this]
  have k: "pinyinKeys ?st2 = pinyinKeys ?st1" and t: "stagedText ?st2 = stagedText ?st1"
    and h: "selectionHistory ?st2 = selectionHistory ?st1"
    and f: "focusedPinyinCandidate ?st2 = None"
    by simp_all
  from undo_one [OF keep ne k t h f] handlePanelDelete_focus [of ?st2]
  show ?case by simp
qed

text \<open>
  The withdrawal of selections whose values are all non-empty: after any number of
  selections none of which commits, as many deletions restore the pending keys, the staged
  text and the selection history.
\<close>

lemma undo_law_nonempty_values:
  assumes "selections_keep st cs" and "\<forall>candidate \<in> set cs. value candidate \<noteq> []"
  shows "pinyinKeys ((handlePanelDelete ^^ length cs)
      (foldl (\<lambda>s candidate. handleCandidateSelect candidate s) st cs)) = pinyinKeys st \<and>
   stagedText ((handlePanelDelete ^^ length cs)
      (foldl (\<lambda>s candidate. handleCandidateSelect candidate s) st cs)) = stagedText st \<and>
   selectionHistory ((handlePanelDelete ^^ length cs)
      (foldl (\<lambda>s candidate. handleCandidateSelect candidate s) st cs)) = selectionHistory st"
proof (cases cs)
  case Nil
  then show ?thesis by simp
next
  case (Cons candidate cs')
  let ?st1 = "handleCandidateSelect candidate st"
  let ?st2 = "(handlePanelDelete ^^ length cs')
      (foldl (\<lambda>s candidate. handleCandidateSelect candidate s) ?st1 cs')"
  from assms Cons have keep: "slice_from (pinyinKeys st) (int (consumedLen candidate)) \<noteq> []"
    and rest: "selections_keep ?st1 cs'" and ne: "value candidate \<noteq> []"
    and nes: "\<forall>candidate \<in> set cs'. value candidate \<noteq> []"
    by simp_all
  have "focusedPinyinCandidate ?st1 = None" by (rule handleCandidateSelect_focus)
  from undo_law_focus [OF rest nes this]
  have k: "pinyinKeys ?st2 = pinyinKeys ?st1" and t: "stagedText ?st2 = stagedText ?st1"
    and h: "selectionHistory ?st2 = selectionHistory ?st1"
    and f: "focusedPinyinCandidate ?st2 = None"
    by simp_all
  from undo_one [OF keep ne k t h f] Cons show ?thesis by simp
qed








end
